theory Spec2Isabelle
  imports Main "HOL-Library.Multiset"
begin

section \<open>Data model (db.go, push.go)\<close>

text \<open>
  Errors are values.  The Go code builds its errors with \<open>fmt.Errorf\<close>; the model keeps the
  kind of failure and the message prefix the code uses.
\<close>

datatype error =
    StorageError string
  | InvalidDuration string
  | InvalidKeyFormat string
  | MarshalError string

text \<open>
  \<open>type Subscription struct\<close>.  Timestamps are whole seconds since the epoch: they stand for
  the fixed-width UTC text \<open>YYYY-MM-DD HH:MM:SS\<close> that SQLite's \<open>datetime('now')\<close> stores,
  whose text order is the order of the instants.
\<close>

record Subscription =
  ID :: string
  Topic :: string
  Endpoint :: string
  KeyP256dh :: string
  KeyAuth :: string
  CreatedAt :: int

text \<open>A row of table \<open>delivery_log\<close>.\<close>

record DeliveryLogEntry =
  log_id :: int
  subscription_id :: string
  sent_at :: int
  status_code :: int
  error_text :: string

text \<open>
  The database: the rows of the two tables in insertion order, and the AUTOINCREMENT counter
  of \<open>delivery_log.id\<close> (the largest id ever handed out).
\<close>

record db =
  subscriptions :: "Subscription list"
  delivery_log :: "DeliveryLogEntry list"
  log_seq :: int

definition empty_db :: db where
  "empty_db = \<lparr>subscriptions = [], delivery_log = [], log_seq = 0\<rparr>"

text \<open>\<open>type NotifyRequest struct\<close> and \<open>type NotifyResult struct\<close>.\<close>

record NotifyRequest =
  ReqTopic :: string
  Title :: string
  Body :: string
  Icon :: string
  Badge :: string
  Tag :: string
  URL :: string

record NotifyResult =
  Sent :: int
  Failed :: int
  StaleRemoved :: int

definition NotifyResult0 :: NotifyResult where
  "NotifyResult0 = \<lparr>Sent = 0, Failed = 0, StaleRemoved = 0\<rparr>"

section \<open>Payload (push.go, pushPayload)\<close>

text \<open>
  The values \<open>pushPayload\<close> puts into its \<open>map[string]any\<close>: strings, the number 8030 and
  nested maps.  A Go map is a partial function on its keys.
\<close>

datatype json =
    JString string
  | JNumber int
  | JObject "string \<Rightarrow> json option"

text \<open>
  \<open>json.Marshal\<close> is the library's serialiser; it is a parameter of the model, so every
  statement holds for whatever bytes it produces, and for its failure.
\<close>

definition notification_of :: "NotifyRequest \<Rightarrow> (string \<Rightarrow> json option)" where
  "notification_of req =
    (let notification = [''title'' \<mapsto> JString (Title req)];
         notification = (if Body req \<noteq> [] then notification(''body'' \<mapsto> JString (Body req))
                         else notification);
         notification = (if Icon req \<noteq> [] then notification(''icon'' \<mapsto> JString (Icon req))
                         else notification);
         notification = (if Badge req \<noteq> [] then notification(''badge'' \<mapsto> JString (Badge req))
                         else notification);
         notification = (if Tag req \<noteq> [] then notification(''tag'' \<mapsto> JString (Tag req))
                         else notification);
         notification = (if URL req \<noteq> []
                         then notification(''data'' \<mapsto> JObject [''url'' \<mapsto> JString (URL req)])
                         else notification)
     in notification)"

definition envelope_of :: "NotifyRequest \<Rightarrow> json" where
  "envelope_of req =
     JObject [''web_push'' \<mapsto> JNumber 8030, ''notification'' \<mapsto> JObject (notification_of req)]"

definition pushPayload :: "(json \<Rightarrow> error + string) \<Rightarrow> NotifyRequest \<Rightarrow> error + string" where
  "pushPayload marshal req = marshal (envelope_of req)"

section \<open>Store operations used by the fan-out (db.go)\<close>

text \<open>
  Every \<open>db.Exec\<close> or \<open>db.Query\<close> may fail for reasons outside the program (I/O, a locked
  file).  The flag \<open>fault\<close> of an operation says that the engine reports such a failure for
  this statement; a failed statement changes nothing.
\<close>

definition GetSubscriptionsByTopic :: "db \<Rightarrow> bool \<Rightarrow> string \<Rightarrow> error + Subscription list" where
  "GetSubscriptionsByTopic d fault topic =
     (if fault then Inl (StorageError ''query subscriptions'')
      else if topic = [] then Inr (subscriptions d)
      else Inr (filter (\<lambda>s. Topic s = topic) (subscriptions d)))"

definition DeleteSubscriptionByEndpoint :: "db \<Rightarrow> bool \<Rightarrow> string \<Rightarrow> db \<times> error option" where
  "DeleteSubscriptionByEndpoint d fault endpoint =
     (if fault then (d, Some (StorageError ''delete''))
      else (d\<lparr>subscriptions := filter (\<lambda>s. Endpoint s \<noteq> endpoint) (subscriptions d)\<rparr>, None))"

definition DeleteSubscriptionByID :: "db \<Rightarrow> bool \<Rightarrow> string \<Rightarrow> db \<times> error option" where
  "DeleteSubscriptionByID d fault i =
     (if fault then (d, Some (StorageError ''delete''))
      else (d\<lparr>subscriptions := filter (\<lambda>s. ID s \<noteq> i) (subscriptions d)\<rparr>, None))"

text \<open>
  \<open>LogDelivery\<close>: one INSERT; \<open>id\<close> is the next AUTOINCREMENT value and \<open>sent_at\<close> the
  engine's clock \<open>now\<close> at the insert.
\<close>

definition LogDelivery :: "db \<Rightarrow> int \<Rightarrow> bool \<Rightarrow> string \<Rightarrow> int \<Rightarrow> string \<Rightarrow> db \<times> error option" where
  "LogDelivery d now fault subscriptionID statusCode errMsg =
     (if fault then (d, Some (StorageError ''insert''))
      else (d\<lparr>delivery_log := delivery_log d @
                 [\<lparr>log_id = log_seq d + 1, subscription_id = subscriptionID, sent_at = now,
                   status_code = statusCode, error_text = errMsg\<rparr>],
               log_seq := log_seq d + 1\<rparr>, None))"

section \<open>Fan-out (push.go, sendToSubscriptions and SendNotifications)\<close>

text \<open>
  The arguments of one call of \<open>webpush.SendNotification\<close>, and what the call gives back:
  \<open>Inl\<close> the text of a transport error, \<open>Inr\<close> the status code of the response.
\<close>

record push_call =
  payload :: string
  wp_endpoint :: string
  wp_p256dh :: string
  wp_auth :: string
  vapid_public :: string
  vapid_private :: string
  subscriber :: string
  ttl :: int

type_synonym push_primitive = "push_call \<Rightarrow> string + int"

text \<open>
  What the outside world does during one delivery: the clock at the log insert and whether
  the two storage statements fail.
\<close>

record delivery_env =
  log_at :: int
  log_fault :: bool
  delete_fault :: bool

text \<open>
  What a run does to the outside, in the order it happens: a call of the push primitive, a
  row written to the delivery log (subscription id, status code, error text), a subscription
  deleted by id.  A statement that failed leaves no event.
\<close>

datatype event =
    Dispatched push_call
  | Logged string int string
  | Deleted string

text \<open>The local \<open>type result struct\<close> of \<open>sendToSubscriptions\<close>.\<close>

record result =
  sent :: bool
  staleRemoved :: bool

text \<open>The \<open>webpush.Subscription\<close> and \<open>webpush.Options\<close> built for one subscription.\<close>

definition call_for :: "string \<Rightarrow> string \<Rightarrow> string \<Rightarrow> string \<Rightarrow> Subscription \<Rightarrow> push_call" where
  "call_for payload_bytes vapidPublicKey vapidPrivateKey vapidContact s =
     \<lparr>payload = payload_bytes, wp_endpoint = Endpoint s, wp_p256dh = KeyP256dh s,
      wp_auth = KeyAuth s, vapid_public = vapidPublicKey,
      vapid_private = vapidPrivateKey, subscriber = vapidContact, ttl = 86400\<rparr>"

text \<open>
  The goroutine started for one subscription does, in this order: the call of the push
  primitive, the insert into the log, the deletion when the status is 404 or 410, and the
  send of its result on the channel.  Each of them is one atomic step; the steps of the
  goroutines of a batch interleave.  A failure of \<open>LogDelivery\<close> or
  \<open>DeleteSubscriptionByID\<close> is only printed by the code.
\<close>

datatype step =
    CallPush push_call
  | ExecLog int bool string int string
  | ExecDelete bool string
  | PutResult result

definition goroutine ::
  "push_primitive \<Rightarrow> delivery_env \<Rightarrow> string \<Rightarrow> string \<Rightarrow> string \<Rightarrow> string \<Rightarrow>
   Subscription \<Rightarrow> step list" where
  "goroutine send e payload_bytes vapidPublicKey vapidPrivateKey vapidContact s =
    (let call = call_for payload_bytes vapidPublicKey vapidPrivateKey vapidContact s;
         resp = send call;
         (statusCode, errMsg) = (case resp of Inl err \<Rightarrow> (0, err) | Inr code \<Rightarrow> (code, []));
         stale = (statusCode = 404 \<or> statusCode = 410);
         sent_ok = (\<not> isl resp \<and> statusCode \<ge> 200 \<and> statusCode < 300)
     in [CallPush call, ExecLog (log_at e) (log_fault e) (ID s) statusCode errMsg]
        @ (if stale then [ExecDelete (delete_fault e) (ID s)] else [])
        @ [PutResult \<lparr>sent = sent_ok, staleRemoved = stale\<rparr>])"

text \<open>
  The effect of one step on the database, on the results channel and on the events seen
  from outside.
\<close>

fun exec_step :: "db \<times> result list \<times> event list \<Rightarrow> step \<Rightarrow> db \<times> result list \<times> event list" where
  "exec_step (d, rs, evs) (CallPush c) = (d, rs, evs @ [Dispatched c])"
| "exec_step (d, rs, evs) (ExecLog now fault sid code err) =
     (case LogDelivery d now fault sid code err of
        (d', None) \<Rightarrow> (d', rs, evs @ [Logged sid code err])
      | (d', Some e) \<Rightarrow> (d', rs, evs))"
| "exec_step (d, rs, evs) (ExecDelete fault sid) =
     (case DeleteSubscriptionByID d fault sid of
        (d', None) \<Rightarrow> (d', rs, evs @ [Deleted sid])
      | (d', Some e) \<Rightarrow> (d', rs, evs))"
| "exec_step (d, rs, evs) (PutResult r) = (d, rs @ [r], evs)"

text \<open>
  The steps of the goroutines of a batch interleave.  Which goroutine takes the next step
  is the scheduler's choice; a run is described by the list \<open>picks\<close> of these choices,
  each the index of a goroutine.  \<open>run_order\<close> gives the steps taken, in order, each with
  the index of its goroutine, and \<open>unfinished\<close> what is left of every goroutine afterwards.
  A pick of a goroutine that has no step left, or of no goroutine at all, takes no step.
  The semaphore of the code (at most ten goroutines in flight) and the order in which the
  goroutines are started only exclude some of these runs.
\<close>

fun run_order :: "step list list \<Rightarrow> nat list \<Rightarrow> (nat \<times> step) list" where
  "run_order progs [] = []"
| "run_order progs (i # picks) =
     (if i < length progs
      then (case progs ! i of
              [] \<Rightarrow> run_order progs picks
            | st # p \<Rightarrow> (i, st) # run_order (progs[i := p]) picks)
      else run_order progs picks)"

fun unfinished :: "step list list \<Rightarrow> nat list \<Rightarrow> step list list" where
  "unfinished progs [] = progs"
| "unfinished progs (i # picks) =
     (if i < length progs
      then (case progs ! i of
              [] \<Rightarrow> unfinished progs picks
            | st # p \<Rightarrow> unfinished (progs[i := p]) picks)
      else unfinished progs picks)"

text \<open>
  \<open>sendToSubscriptions\<close> returns when it has received one result from every goroutine, that
  is, when every goroutine has taken its last step.
\<close>

definition all_finished :: "step list list \<Rightarrow> nat list \<Rightarrow> bool" where
  "all_finished progs picks = list_all (\<lambda>p. p = []) (unfinished progs picks)"

text \<open>The picks that run the goroutines one after the other.\<close>

definition sequential_picks :: "step list list \<Rightarrow> nat list" where
  "sequential_picks progs = concat (map (\<lambda>i. replicate (length (progs ! i)) i) [0..<length progs])"

text \<open>The loop that drains the results channel.\<close>

definition tally :: "NotifyResult \<Rightarrow> result \<Rightarrow> NotifyResult" where
  "tally nr r =
    (let nr = (if sent r then nr\<lparr>Sent := Sent nr + 1\<rparr>
               else if \<not> staleRemoved r then nr\<lparr>Failed := Failed nr + 1\<rparr>
               else nr);
         nr = (if staleRemoved r
               then nr\<lparr>StaleRemoved := StaleRemoved nr + 1, Failed := Failed nr + 1\<rparr>
               else nr)
     in nr)"

definition aggregate :: "result list \<Rightarrow> NotifyResult" where
  "aggregate rs = foldl tally NotifyResult0 rs"

text \<open>
  The goroutines \<open>sendToSubscriptions\<close> starts for a batch, one for each subscription, all
  with the one payload built before.
\<close>

definition goroutines ::
  "(json \<Rightarrow> error + string) \<Rightarrow> push_primitive \<Rightarrow> (Subscription \<Rightarrow> delivery_env) \<Rightarrow>
   Subscription list \<Rightarrow> NotifyRequest \<Rightarrow> string \<Rightarrow> string \<Rightarrow> string \<Rightarrow> step list list" where
  "goroutines marshal send env subs req vapidPublicKey vapidPrivateKey vapidContact =
    (case pushPayload marshal req of
       Inl err \<Rightarrow> []
     | Inr payload_bytes \<Rightarrow>
         map (\<lambda>s. goroutine send (env s) payload_bytes vapidPublicKey vapidPrivateKey vapidContact s)
           subs)"

text \<open>
  \<open>sendToSubscriptions\<close>, run with the scheduler's choices \<open>picks\<close>.  Its Go result is the
  \<open>NotifyResult\<close>; the model adds the database afterwards and the events of the run.
\<close>

definition sendToSubscriptions ::
  "(json \<Rightarrow> error + string) \<Rightarrow> push_primitive \<Rightarrow> (Subscription \<Rightarrow> delivery_env) \<Rightarrow>
   nat list \<Rightarrow> db \<Rightarrow> Subscription list \<Rightarrow> NotifyRequest \<Rightarrow> string \<Rightarrow> string \<Rightarrow> string \<Rightarrow>
   db \<times> NotifyResult \<times> event list" where
  "sendToSubscriptions marshal send env picks d subs req vapidPublicKey vapidPrivateKey vapidContact =
    (case pushPayload marshal req of
       Inl err \<Rightarrow> (d, NotifyResult0, [])
     | Inr payload_bytes \<Rightarrow>
         (let progs = map (\<lambda>s. goroutine send (env s) payload_bytes
                                  vapidPublicKey vapidPrivateKey vapidContact s) subs;
              (d', results, events) =
                 foldl exec_step (d, [], []) (map snd (run_order progs picks))
          in (d', aggregate results, events)))"

text \<open>
  \<open>SendNotifications\<close>.  Its Go result type is \<open>NotifyResult\<close> alone, with no error beside
  it.  \<open>query_fault\<close> is the fault flag of the read.
\<close>

definition SendNotifications ::
  "(json \<Rightarrow> error + string) \<Rightarrow> push_primitive \<Rightarrow> (Subscription \<Rightarrow> delivery_env) \<Rightarrow> bool \<Rightarrow>
   nat list \<Rightarrow> db \<Rightarrow> NotifyRequest \<Rightarrow> string \<Rightarrow> string \<Rightarrow> string \<Rightarrow>
   db \<times> NotifyResult \<times> event list" where
  "SendNotifications marshal send env query_fault picks d req vapidPublicKey vapidPrivateKey vapidContact =
    (case GetSubscriptionsByTopic d query_fault (ReqTopic req) of
       Inl err \<Rightarrow> (d, NotifyResult0, [])
     | Inr subs \<Rightarrow>
         sendToSubscriptions marshal send env picks d subs req
           vapidPublicKey vapidPrivateKey vapidContact)"

text \<open>The calls of the push primitive in a run, and the check that every deletion in a
  run comes after a log row of the same subscription.\<close>

fun dispatched :: "event list \<Rightarrow> push_call list" where
  "dispatched [] = []"
| "dispatched (Dispatched c # es) = c # dispatched es"
| "dispatched (e # es) = dispatched es"

fun log_then_evict :: "string list \<Rightarrow> event list \<Rightarrow> bool" where
  "log_then_evict seen [] = True"
| "log_then_evict seen (Logged i code err # es) = log_then_evict (i # seen) es"
| "log_then_evict seen (Deleted i # es) = (i \<in> set seen \<and> log_then_evict seen es)"
| "log_then_evict seen (Dispatched c # es) = log_then_evict seen es"

section \<open>Subscription store: upsert (db.go, UpsertSubscription)\<close>

text \<open>
  The statement \<open>INSERT ... ON CONFLICT(endpoint) DO UPDATE SET topic, key_p256dh, key_auth\<close>
  on a table with \<open>id TEXT PRIMARY KEY\<close> and \<open>UNIQUE(endpoint)\<close>.  SQLite resolves the
  conflict named in the clause first: a row with this endpoint is updated in place.  Without
  such a row, a row with the same \<open>id\<close> is a constraint failure of the statement; otherwise
  the row is inserted with \<open>created_at\<close> set from the clock.  The statement reports one
  affected row when it succeeds.
\<close>

definition upsert_statement ::
  "db \<Rightarrow> int \<Rightarrow> string \<Rightarrow> string \<Rightarrow> string \<Rightarrow> string \<Rightarrow> string \<Rightarrow> error + (db \<times> int)" where
  "upsert_statement d now newID topic endpoint p256dh auth =
     (if list_ex (\<lambda>s. Endpoint s = endpoint) (subscriptions d)
      then Inr (d\<lparr>subscriptions :=
                    map (\<lambda>s. if Endpoint s = endpoint
                              then s\<lparr>Topic := topic, KeyP256dh := p256dh, KeyAuth := auth\<rparr>
                              else s) (subscriptions d)\<rparr>, 1)
      else if list_ex (\<lambda>s. ID s = newID) (subscriptions d)
      then Inl (StorageError ''UNIQUE constraint failed: subscriptions.id'')
      else Inr (d\<lparr>subscriptions := subscriptions d @
                    [\<lparr>ID = newID, Topic = topic, Endpoint = endpoint, KeyP256dh = p256dh,
                      KeyAuth = auth, CreatedAt = now\<rparr>]\<rparr>, 1))"

text \<open>\<open>SELECT id FROM subscriptions WHERE endpoint = ?\<close> read with \<open>QueryRow(...).Scan\<close>.\<close>

definition select_id_by_endpoint :: "db \<Rightarrow> string \<Rightarrow> error + string" where
  "select_id_by_endpoint d endpoint =
     (case filter (\<lambda>s. Endpoint s = endpoint) (subscriptions d) of
        [] \<Rightarrow> Inl (StorageError ''sql: no rows in result set'')
      | s # _ \<Rightarrow> Inr (ID s))"

text \<open>
  \<open>UpsertSubscription\<close>.  \<open>newID\<close> is the value \<open>randomID()\<close> returned (16 random bytes in
  hex), \<open>now\<close> the clock, and the two flags the faults of the two statements.  The database
  is returned with the outcome, since the first statement may have run when the second fails.
\<close>

definition UpsertSubscription ::
  "db \<Rightarrow> int \<Rightarrow> string \<Rightarrow> bool \<Rightarrow> bool \<Rightarrow> string \<Rightarrow> string \<Rightarrow> string \<Rightarrow> string \<Rightarrow>
   db \<times> (error + string \<times> bool)" where
  "UpsertSubscription d now newID exec_fault query_fault topic endpoint p256dh auth =
     (case (if exec_fault then Inl (StorageError ''exec'')
            else upsert_statement d now newID topic endpoint p256dh auth) of
        Inl err \<Rightarrow> (d, Inl (StorageError ''upsert subscription''))
      | Inr (d', rows) \<Rightarrow>
          (case (if query_fault then Inl (StorageError ''query'')
                 else select_id_by_endpoint d' endpoint) of
             Inl err \<Rightarrow> (d', Inl (StorageError ''lookup subscription id''))
           | Inr actualID \<Rightarrow> (d', Inr (actualID, actualID = newID \<and> rows > 0))))"

section \<open>Delivery log retention (db.go, PurgeDeliveryLog; handlers.go, parseDuration)\<close>

text \<open>
  \<open>int64\<close> and \<open>time.Duration\<close> are 64-bit and wrap around, and so is \<open>int\<close> on the
  64-bit platforms the server is built for.
\<close>

definition wrap64 :: "int \<Rightarrow> int" where
  "wrap64 x = (x + 2 ^ 63) mod 2 ^ 64 - 2 ^ 63"

definition Nanosecond :: int where "Nanosecond = 1"
definition Second :: int where "Second = 1000000000 * Nanosecond"
definition Minute :: int where "Minute = 60 * Second"
definition Hour :: int where "Hour = 60 * Minute"

text \<open>
  \<open>PurgeDeliveryLog\<close>.  \<open>now\<close> is \<open>time.Now()\<close> in nanoseconds since the epoch and
  \<open>olderThan\<close> a \<open>time.Duration\<close> in nanoseconds.  \<open>Format("2006-01-02 15:04:05")\<close> drops
  the fraction of the second, so the cutoff, like \<open>sent_at\<close>, is a whole number of seconds.
\<close>

definition PurgeDeliveryLog :: "db \<Rightarrow> int \<Rightarrow> bool \<Rightarrow> int \<Rightarrow> db \<times> (error + int)" where
  "PurgeDeliveryLog d now fault olderThan =
     (let cutoff = (now + wrap64 (- olderThan)) div Second
      in if fault then (d, Inl (StorageError ''delete''))
         else (d\<lparr>delivery_log := filter (\<lambda>e. \<not> sent_at e < cutoff) (delivery_log d)\<rparr>,
               Inr (int (length (filter (\<lambda>e. sent_at e < cutoff) (delivery_log d))))))"

text \<open>
  \<open>durationRe = ^(\d+)([dhm])$\<close>: one or more ASCII digits, then one of d, h, m, and
  nothing else.  \<open>FindStringSubmatch\<close> gives the two groups.
\<close>

definition is_digit :: "char \<Rightarrow> bool" where
  "is_digit c = (48 \<le> (of_char c :: nat) \<and> (of_char c :: nat) \<le> 57)"

definition durationRe_FindStringSubmatch :: "string \<Rightarrow> (string \<times> string) option" where
  "durationRe_FindStringSubmatch s =
     (if s = [] then None
      else if butlast s \<noteq> [] \<and> list_all is_digit (butlast s) \<and> last s \<in> set ''dhm''
      then Some (butlast s, [last s])
      else None)"

text \<open>
  \<open>strconv.Atoi\<close> on a string of decimal digits: the value, or the largest \<open>int\<close> together
  with a range error when the value does not fit.
\<close>

definition digits_value :: "string \<Rightarrow> int" where
  "digits_value ds = foldl (\<lambda>a c. 10 * a + (of_char c - 48)) 0 ds"

definition Atoi :: "string \<Rightarrow> int \<times> string option" where
  "Atoi ds =
     (if digits_value ds > 2 ^ 63 - 1 then (2 ^ 63 - 1, Some ''value out of range'')
      else (digits_value ds, None))"

definition parseDuration :: "string \<Rightarrow> error + int" where
  "parseDuration s =
     (case durationRe_FindStringSubmatch s of
        None \<Rightarrow> Inl (InvalidDuration ''invalid duration'')
      | Some (m1, m2) \<Rightarrow>
          (let n = fst (Atoi m1)
           in if m2 = ''d'' then Inr (wrap64 (wrap64 (n * 24) * Hour))
              else if m2 = ''h'' then Inr (wrap64 (n * Hour))
              else if m2 = ''m'' then Inr (wrap64 (n * Minute))
              else Inl (InvalidDuration ''invalid duration unit'')))"

text \<open>
  \<open>HandlePurgeDeliveryLog\<close>: the HTTP status and, for 200, the \<open>deleted\<close> count.
\<close>

definition HandlePurgeDeliveryLog :: "db \<Rightarrow> int \<Rightarrow> bool \<Rightarrow> string \<Rightarrow> db \<times> int \<times> int option" where
  "HandlePurgeDeliveryLog d now fault older_than =
     (let olderThan = (if older_than = [] then ''30d'' else older_than)
      in case parseDuration olderThan of
           Inl err \<Rightarrow> (d, 400, None)
         | Inr dur \<Rightarrow>
             (case PurgeDeliveryLog d now fault dur of
                (d', Inl err) \<Rightarrow> (d', 500, None)
              | (d', Inr deleted) \<Rightarrow> (d', 200, Some deleted)))"

section \<open>Key manager (vapid.go)\<close>

text \<open>
  A byte is a natural number below 256.  \<open>base64.RawURLEncoding\<close>: the URL-safe alphabet,
  no padding.
\<close>

definition is_byte :: "nat \<Rightarrow> bool" where
  "is_byte b = (b < 256)"

definition encodeURL :: string where
  "encodeURL = ''ABCDEFGHIJKLMNOPQRSTUVWXYZabcdefghijklmnopqrstuvwxyz0123456789-_''"

fun EncodeToString :: "nat list \<Rightarrow> string" where
  "EncodeToString (a # b # c # rest) =
     (let val = a * 65536 + b * 256 + c
      in [encodeURL ! (val div 262144 mod 64), encodeURL ! (val div 4096 mod 64),
          encodeURL ! (val div 64 mod 64), encodeURL ! (val mod 64)] @ EncodeToString rest)"
| "EncodeToString [a, b] =
     (let val = a * 65536 + b * 256
      in [encodeURL ! (val div 262144 mod 64), encodeURL ! (val div 4096 mod 64),
          encodeURL ! (val div 64 mod 64)])"
| "EncodeToString [a] =
     (let val = a * 65536
      in [encodeURL ! (val div 262144 mod 64), encodeURL ! (val div 4096 mod 64)])"
| "EncodeToString [] = []"

text \<open>The decode map of the encoding: the position of a character in the alphabet.\<close>

fun index_of :: "'a \<Rightarrow> 'a list \<Rightarrow> nat option" where
  "index_of c [] = None"
| "index_of c (x # xs) = (if c = x then Some 0 else map_option Suc (index_of c xs))"

definition decodeMap :: "char \<Rightarrow> nat option" where
  "decodeMap c = index_of c encodeURL"

text \<open>
  Decoding the six-bit values four at a time.  The decoder is not strict: the unused low
  bits of a final group of two or three characters are dropped.  A final group of one
  character is corrupt input.
\<close>

fun decode_quanta :: "nat list \<Rightarrow> nat list option" where
  "decode_quanta (a # b # c # e # rest) =
     (let val = a * 262144 + b * 4096 + c * 64 + e
      in map_option (\<lambda>bs. [val div 65536 mod 256, val div 256 mod 256, val mod 256] @ bs)
           (decode_quanta rest))"
| "decode_quanta [a, b, c] =
     (let val = a * 262144 + b * 4096 + c * 64
      in Some [val div 65536 mod 256, val div 256 mod 256])"
| "decode_quanta [a, b] =
     (let val = a * 262144 + b * 4096 in Some [val div 65536 mod 256])"
| "decode_quanta [a] = None"
| "decode_quanta [] = Some []"

text \<open>
  \<open>DecodeString\<close>: carriage returns and line feeds in the input are skipped; any other
  character outside the alphabet (the padding character too) is corrupt input.
\<close>

definition DecodeString :: "string \<Rightarrow> nat list option" where
  "DecodeString s =
     (let src = filter (\<lambda>c. c \<noteq> CHR 0x0A \<and> c \<noteq> CHR 0x0D) s
      in if list_all (\<lambda>c. decodeMap c \<noteq> None) src
         then decode_quanta (map (\<lambda>c. the (decodeMap c)) src)
         else None)"

text \<open>\<open>big.Int\<close>: \<open>SetBytes\<close> reads big-endian bytes, \<open>FillBytes\<close> writes them into a
  buffer of the given length and panics when the value does not fit.\<close>

definition SetBytes :: "nat list \<Rightarrow> nat" where
  "SetBytes bs = foldl (\<lambda>a b. a * 256 + b) 0 bs"

fun be_bytes :: "nat \<Rightarrow> nat \<Rightarrow> nat list" where
  "be_bytes 0 v = []"
| "be_bytes (Suc n) v = be_bytes n (v div 256) @ [v mod 256]"

definition FillBytes :: "nat \<Rightarrow> nat \<Rightarrow> nat list option" where
  "FillBytes v n = (if v < 256 ^ n then Some (be_bytes n v) else None)"

text \<open>The curve P-256: \<open>y\<^sup>2 = x\<^sup>3 - 3x + b\<close> over the prime field of order \<open>P256_P\<close>.\<close>

definition P256_P :: nat where
  "P256_P = 0xffffffff00000001000000000000000000000000ffffffffffffffffffffffff"

definition P256_B :: nat where
  "P256_B = 0x5ac635d8aa3a93e7b3ebbd55769886bc651d06b0cc53b0f63bce3c3e27d2604b"

definition P256_N :: nat where
  "P256_N = 0xffffffff00000000ffffffffffffffffbce6faada7179e84f3b9cac2fc632551"

definition P256_Gx :: nat where
  "P256_Gx = 0x6b17d1f2e12c4247f8bce6e563a440f277037d812deb33a0f4a13945d898c296"

definition P256_Gy :: nat where
  "P256_Gy = 0x4fe342e2fe1a7f9b8ee7eb4a7c0f9e162bce33576b315ececbb6406837bf51f5"

definition IsOnCurve :: "nat \<Rightarrow> nat \<Rightarrow> bool" where
  "IsOnCurve x y =
     (x < P256_P \<and> y < P256_P \<and>
      (y * y) mod P256_P = (x * x * x + (P256_P - 3) * x + P256_B) mod P256_P)"

text \<open>
  \<open>elliptic.Marshal\<close> and \<open>elliptic.Unmarshal\<close> for P-256: the uncompressed form
  \<open>0x04 || X || Y\<close> with 32 bytes for each coordinate.  \<open>Unmarshal\<close> gives no point (Go:
  \<open>x == nil\<close>) unless the length and the tag are right, both coordinates are below the
  prime and the point is on the curve.  \<open>Marshal\<close> panics (the result \<open>None\<close>) when a
  coordinate does not fit; newer Go releases panic for every point off the curve, and the
  statements below apply \<open>Marshal\<close> to points on the curve only.
\<close>

definition Marshal :: "nat \<Rightarrow> nat \<Rightarrow> nat list option" where
  "Marshal x y =
     (case (FillBytes x 32, FillBytes y 32) of
        (Some xs, Some ys) \<Rightarrow> Some (4 # xs @ ys)
      | _ \<Rightarrow> None)"

definition Unmarshal :: "nat list \<Rightarrow> (nat \<times> nat) option" where
  "Unmarshal data =
     (if length data \<noteq> 1 + 2 * 32 then None
      else if hd data \<noteq> 4 then None
      else (let x = SetBytes (take 32 (drop 1 data));
                y = SetBytes (drop 33 data)
            in if x \<ge> P256_P \<or> y \<ge> P256_P then None
               else if \<not> IsOnCurve x y then None
               else Some (x, y)))"

text \<open>\<open>ecdsa.PrivateKey\<close> on P-256: the public point and the scalar.\<close>

record PrivateKey =
  X :: nat
  Y :: nat
  D :: nat

text \<open>
  \<open>GenerateVAPIDKeys\<close>.  The outcome of \<open>ecdsa.GenerateKey(elliptic.P256(), rand.Reader)\<close>
  is the parameter \<open>generated\<close>.  A panic of \<open>FillBytes\<close> is the result \<open>None\<close>.
\<close>

definition GenerateVAPIDKeys :: "error + PrivateKey \<Rightarrow> (error + string \<times> string) option" where
  "GenerateVAPIDKeys generated =
     (case generated of
        Inl err \<Rightarrow> Some (Inl (InvalidKeyFormat ''generate ECDSA key''))
      | Inr priv \<Rightarrow>
          (case Marshal (X priv) (Y priv) of
             None \<Rightarrow> None
           | Some pubBytes \<Rightarrow>
               (case FillBytes (D priv) 32 of
                  None \<Rightarrow> None
                | Some privBytes \<Rightarrow>
                    Some (Inr (EncodeToString pubBytes, EncodeToString privBytes)))))"

definition ParseVAPIDKeys :: "string \<Rightarrow> string \<Rightarrow> error + PrivateKey" where
  "ParseVAPIDKeys publicKeyB64 privateKeyB64 =
     (case DecodeString publicKeyB64 of
        None \<Rightarrow> Inl (InvalidKeyFormat ''decode VAPID public key'')
      | Some pubBytes \<Rightarrow>
          (case Unmarshal pubBytes of
             None \<Rightarrow> Inl (InvalidKeyFormat ''invalid VAPID public key (not a valid P-256 point)'')
           | Some (x, y) \<Rightarrow>
               (case DecodeString privateKeyB64 of
                  None \<Rightarrow> Inl (InvalidKeyFormat ''decode VAPID private key'')
                | Some privBytes \<Rightarrow> Inr \<lparr>X = x, Y = y, D = SetBytes privBytes\<rparr>)))"

text \<open>
  The group law of the curve in affine coordinates and the multiples of the base point:
  the public point that belongs to a scalar \<open>d\<close> is \<open>ScalarBaseMult d\<close>.
\<close>

datatype point = Infinity | Affine nat nat

fun pow_mod :: "nat \<Rightarrow> nat \<Rightarrow> nat \<Rightarrow> nat" where
  "pow_mod a 0 m = 1 mod m"
| "pow_mod a (Suc k) m = (a * pow_mod a k m) mod m"

definition inv_mod_p :: "nat \<Rightarrow> nat" where
  "inv_mod_p a = pow_mod a (P256_P - 2) P256_P"

definition sub_mod_p :: "nat \<Rightarrow> nat \<Rightarrow> nat" where
  "sub_mod_p a b = (a + (P256_P - b mod P256_P)) mod P256_P"

fun ec_add :: "point \<Rightarrow> point \<Rightarrow> point" where
  "ec_add Infinity q = q"
| "ec_add p Infinity = p"
| "ec_add (Affine x1 y1) (Affine x2 y2) =
     (if x1 = x2 \<and> (y1 + y2) mod P256_P = 0 then Infinity
      else (let l = (if x1 = x2
                     then ((3 * x1 * x1 + (P256_P - 3)) * inv_mod_p (2 * y1)) mod P256_P
                     else (sub_mod_p y2 y1 * inv_mod_p (sub_mod_p x2 x1)) mod P256_P);
                x3 = sub_mod_p (sub_mod_p (l * l) x1) x2;
                y3 = sub_mod_p (l * sub_mod_p x1 x3) y1
            in Affine x3 y3))"

fun scalar_mult :: "nat \<Rightarrow> point \<Rightarrow> point" where
  "scalar_mult 0 q = Infinity"
| "scalar_mult (Suc k) q = ec_add q (scalar_mult k q)"

definition ScalarBaseMult :: "nat \<Rightarrow> point" where
  "ScalarBaseMult d = scalar_mult d (Affine P256_Gx P256_Gy)"

section \<open>The outcomes of a delivery in the words of the specification\<close>

text \<open>
  What the push primitive gave back, classified as the specification does: successful is a
  status in \<open>[200,300)\<close> with no transport error, stale is status 404 or 410, and any
  other outcome is a plain failure.
\<close>

definition spec_successful :: "string + int \<Rightarrow> bool" where
  "spec_successful out = (case out of Inl err \<Rightarrow> False | Inr code \<Rightarrow> 200 \<le> code \<and> code < 300)"

definition spec_stale :: "string + int \<Rightarrow> bool" where
  "spec_stale out = (case out of Inl err \<Rightarrow> False | Inr code \<Rightarrow> code = 404 \<or> code = 410)"

definition spec_other_failure :: "string + int \<Rightarrow> bool" where
  "spec_other_failure out = (\<not> spec_successful out \<and> \<not> spec_stale out)"

text \<open>The raw status code and error text that go into the log: 0 for a transport error.\<close>

definition spec_status :: "string + int \<Rightarrow> int" where
  "spec_status out = (case out of Inl err \<Rightarrow> 0 | Inr code \<Rightarrow> code)"

definition spec_error_text :: "string + int \<Rightarrow> string" where
  "spec_error_text out = (case out of Inl err \<Rightarrow> err | Inr code \<Rightarrow> [])"

text \<open>
  What a row of the log records besides its number, and the row expected for a subscription
  of the batch: its id, the clock at the insert, the raw status code and the error text.
\<close>

definition row_content :: "DeliveryLogEntry \<Rightarrow> string \<times> int \<times> int \<times> string" where
  "row_content e = (subscription_id e, sent_at e, status_code e, error_text e)"

definition spec_log_row ::
  "(Subscription \<Rightarrow> delivery_env) \<Rightarrow> (Subscription \<Rightarrow> string + int) \<Rightarrow> Subscription \<Rightarrow>
   string \<times> int \<times> int \<times> string" where
  "spec_log_row env out s = (ID s, log_at (env s), spec_status (out s), spec_error_text (out s))"

section \<open>Projections of a run\<close>

text \<open>
  The steps a batch takes under the picks of the scheduler, without the goroutine indices.
\<close>

definition batch_steps ::
  "push_primitive \<Rightarrow> (Subscription \<Rightarrow> delivery_env) \<Rightarrow> string \<Rightarrow> string \<Rightarrow> string \<Rightarrow> string \<Rightarrow>
   Subscription list \<Rightarrow> nat list \<Rightarrow> step list" where
  "batch_steps send env pl pub priv contact subs picks =
     map snd (run_order (map (\<lambda>s. goroutine send (env s) pl pub priv contact s) subs) picks)"

text \<open>
  A list of steps tagged with goroutine indices is a schedule of the goroutines when the
  steps of every goroutine appear in it exactly once and in the goroutine's own order.
\<close>

definition is_schedule :: "step list list \<Rightarrow> (nat \<times> step) list \<Rightarrow> bool" where
  "is_schedule progs sched =
     (list_all (\<lambda>a. fst a < length progs) sched \<and>
      list_all (\<lambda>i. map snd (filter (\<lambda>a. fst a = i) sched) = progs ! i) [0..<length progs])"

text \<open>
  What the steps of a run contribute, step by step: the results put on the channel, the
  calls of the push primitive, the ids deleted, the rows logged (a failed statement
  contributes nothing), and the events.  \<open>rows_from\<close> numbers logged rows from the
  AUTOINCREMENT counter.
\<close>

fun step_results :: "step \<Rightarrow> result list" where
  "step_results (PutResult r) = [r]"
| "step_results st = []"

fun step_calls :: "step \<Rightarrow> push_call list" where
  "step_calls (CallPush c) = [c]"
| "step_calls st = []"

fun step_deletes :: "step \<Rightarrow> string list" where
  "step_deletes (ExecDelete fault sid) = (if fault then [] else [sid])"
| "step_deletes st = []"

fun step_rows :: "step \<Rightarrow> (string \<times> int \<times> int \<times> string) list" where
  "step_rows (ExecLog now fault sid code err) = (if fault then [] else [(sid, now, code, err)])"
| "step_rows st = []"

fun rows_from :: "int \<Rightarrow> (string \<times> int \<times> int \<times> string) list \<Rightarrow> DeliveryLogEntry list" where
  "rows_from seq [] = []"
| "rows_from seq ((sid, now, code, err) # xs) =
     \<lparr>log_id = seq + 1, subscription_id = sid, sent_at = now, status_code = code, error_text = err\<rparr>
     # rows_from (seq + 1) xs"

fun step_events :: "step \<Rightarrow> event list" where
  "step_events (CallPush c) = [Dispatched c]"
| "step_events (ExecLog now fault sid code err) = (if fault then [] else [Logged sid code err])"
| "step_events (ExecDelete fault sid) = (if fault then [] else [Deleted sid])"
| "step_events (PutResult r) = []"

fun step_logged :: "step \<Rightarrow> string list" where
  "step_logged (ExecLog now fault sid code err) = (if fault then [] else [sid])"
| "step_logged st = []"

section \<open>A small store and a push service for the concrete checks\<close>

definition ex_sub :: "string \<Rightarrow> string \<Rightarrow> string \<Rightarrow> Subscription" where
  "ex_sub i topic endpoint =
     \<lparr>ID = i, Topic = topic, Endpoint = endpoint, KeyP256dh = ''p256dh'', KeyAuth = ''auth'',
      CreatedAt = 0\<rparr>"

definition ex_subs :: "Subscription list" where
  "ex_subs = [ex_sub ''01'' ''alerts'' ''https://push.example/a'',
              ex_sub ''02'' [] ''https://push.example/b'',
              ex_sub ''03'' ''alerts'' ''https://push.example/c'',
              ex_sub ''04'' ''other'' ''https://push.example/d'']"

definition ex_db :: db where
  "ex_db = \<lparr>subscriptions = ex_subs, delivery_log = [], log_seq = 0\<rparr>"

definition ex_send :: push_primitive where
  "ex_send c =
     (if wp_endpoint c = ''https://push.example/a'' then Inr 201
      else if wp_endpoint c = ''https://push.example/b'' then Inl ''dial tcp: i/o timeout''
      else if wp_endpoint c = ''https://push.example/c'' then Inr 410
      else Inr 400)"

definition ex_marshal :: "json \<Rightarrow> error + string" where
  "ex_marshal j = Inr ''{}''"

definition ex_env :: "Subscription \<Rightarrow> delivery_env" where
  "ex_env s = \<lparr>log_at = 1000, log_fault = False, delete_fault = False\<rparr>"

definition ex_req :: NotifyRequest where
  "ex_req = \<lparr>ReqTopic = [], Title = ''Hello'', Body = ''World'', Icon = [], Badge = [], Tag = [],
             URL = ''https://example.org/x''\<rparr>"

text \<open>A clock reading with a fraction of a second, and delivery logs of known ages.\<close>

definition ex_now :: int where
  "ex_now = 1700000000 * Second + 250000000 * Nanosecond"

definition ex_log_entry :: "int \<Rightarrow> string \<Rightarrow> int \<Rightarrow> DeliveryLogEntry" where
  "ex_log_entry i sub seconds_ago =
     \<lparr>log_id = i, subscription_id = sub, sent_at = 1700000000 - seconds_ago, status_code = 201,
      error_text = []\<rparr>"

definition ex_log_db :: db where
  "ex_log_db =
     \<lparr>subscriptions = [],
      delivery_log = [ex_log_entry 1 ''01'' (31 * 86400), ex_log_entry 2 ''01'' (29 * 86400),
                      ex_log_entry 3 ''02'' (10 * 86400)],
      log_seq = 3\<rparr>"

definition ex_boundary_db :: db where
  "ex_boundary_db =
     \<lparr>subscriptions = [], delivery_log = [ex_log_entry 1 ''01'' (30 * 86400)], log_seq = 1\<rparr>"

definition ex_fresh_db :: db where
  "ex_fresh_db =
     \<lparr>subscriptions = [], delivery_log = [ex_log_entry 1 ''01'' 0], log_seq = 1\<rparr>"

text \<open>
  Keys for the concrete checks: the key pair of the scalar 1 (its public point is the base
  point), the encoded mirror image of the base point, and a private key string of 33 bytes.
\<close>

definition ex_key :: PrivateKey where
  "ex_key = \<lparr>X = P256_Gx, Y = P256_Gy, D = 1\<rparr>"

definition ex_public :: string where
  "ex_public =
     ''BGsX0fLhLEJH-Lzm5WOkQPJ3A32BLeszoPShOUXYmMKWT-NC4v4af5uO5-tKfA-eFivOM1drMV7Oy7ZAaDe_UfU''"

definition ex_private :: string where
  "ex_private = ''AAAAAAAAAAAAAAAAAAAAAAAAAAAAAAAAAAAAAAAAAAE''"

definition ex_public_mirror :: string where
  "ex_public_mirror =
     ''BGsX0fLhLEJH-Lzm5WOkQPJ3A32BLeszoPShOUXYmMKWsBy9HAHlgGVxGBS1g_Bh6dQxzKmUzqExNEm_l8hArgo''"

definition ex_private_long :: string where
  "ex_private_long = ''AQIDBAUGBwgJCgsMDQ4PEBESExQVFhcYGRobHB0eHyAh''"

text \<open>
  An interleaved run of the four goroutines of the example: all calls, then all log
  inserts, then the deletion and the results.
\<close>

definition ex_picks :: "nat list" where
  "ex_picks = [0, 1, 2, 3, 0, 1, 2, 3, 2, 3, 0, 1, 2]"

section \<open>Fan-out: what every run returns and does\<close>

subsection \<open>A run as a fold over its steps\<close>

lemma run_results:
  "fst (snd (foldl exec_step (d, rs, evs) steps)) = rs @ concat (map step_results steps)"
proof (induction steps arbitrary: d rs evs)
  case Nil
  show ?case by simp
next
  case (Cons st steps)
  show ?case by (cases st) (auto simp: Cons.IH split: prod.splits option.splits)
qed

lemma dispatched_append: "dispatched (xs @ ys) = dispatched xs @ dispatched ys"
  by (induction xs rule: dispatched.induct) auto

lemma run_subscriptions:
  "subscriptions (fst (foldl exec_step (d, rs, evs) steps))
     = filter (\<lambda>s'. ID s' \<notin> set (concat (map step_deletes steps))) (subscriptions d)"
proof (induction steps arbitrary: d rs evs)
  case Nil
  show ?case by simp
next
  case (Cons st steps)
  show ?case
    by (cases st)
       (auto simp: Cons.IH LogDelivery_def DeleteSubscriptionByID_def
             split: prod.splits option.splits intro: filter_cong)
qed

lemma run_log:
  "delivery_log (fst (foldl exec_step (d, rs, evs) steps))
     = delivery_log d @ rows_from (log_seq d) (concat (map step_rows steps)) \<and>
   log_seq (fst (foldl exec_step (d, rs, evs) steps))
     = log_seq d + int (length (concat (map step_rows steps)))"
proof (induction steps arbitrary: d rs evs)
  case Nil
  show ?case by simp
next
  case (Cons st steps)
  show ?case
    by (cases st)
       (auto simp: Cons.IH LogDelivery_def DeleteSubscriptionByID_def
             split: prod.splits option.splits)
qed

subsection \<open>Runs to the end are schedules of the goroutines\<close>

lemma mset_concat_map_cong:
  assumes "mset xs = mset ys"
  shows "mset (concat (map g xs)) = mset (concat (map g ys))"
proof -
  have "\<And>zs. mset (concat (map g zs)) = sum_mset (image_mset (\<lambda>z. mset (g z)) (mset zs))"
    by (induct_tac zs) auto
  then show ?thesis using assms by simp
qed

lemma sum_single_index:
  "k < (n::nat) \<Longrightarrow> (\<Sum>i = 0..<n. (if k = i then A else ({#} :: 'a multiset))) = A"
proof (induction n)
  case 0
  then show ?case by simp
next
  case (Suc n)
  show ?case
  proof (cases "k = n")
    case True
    then show ?thesis by simp
  next
    case False
    then have "k < n" using Suc.prems by simp
    then show ?thesis using Suc.IH False by simp
  qed
qed

lemma schedule_partition:
  "list_all (\<lambda>a. fst a < (n::nat)) sched \<Longrightarrow>
     mset (map snd sched) = (\<Sum>i = 0..<n. mset (map snd (filter (\<lambda>a. fst a = i) sched)))"
proof (induction sched)
  case Nil
  show ?case by simp
next
  case (Cons a rest)
  have k: "fst a < n" and r: "list_all (\<lambda>a. fst a < n) rest" using Cons.prems by simp_all
  have "(\<Sum>i = 0..<n. mset (map snd (filter (\<lambda>b. fst b = i) (a # rest))))
        = (\<Sum>i = 0..<n. (if fst a = i then {#snd a#} else {#})
                         + mset (map snd (filter (\<lambda>b. fst b = i) rest)))"
    by (intro sum.cong) auto
  also have "\<dots> = (\<Sum>i = 0..<n. (if fst a = i then {#snd a#} else {#}))
                  + (\<Sum>i = 0..<n. mset (map snd (filter (\<lambda>b. fst b = i) rest)))"
    by (simp add: sum.distrib)
  also have "(\<Sum>i = 0..<n. (if fst a = i then {#snd a#} else {#})) = {#snd a#}"
    using k by (rule sum_single_index)
  finally show ?case using Cons.IH [OF r] by simp
qed

lemma mset_concat_nth: "mset (concat xss) = (\<Sum>i = 0..<length xss. mset (xss ! i))"
proof -
  have "mset (concat xss) = sum_list (map mset xss)" by (rule mset_concat)
  also have "\<dots> = (\<Sum>i = 0..<length (map mset xss). map mset xss ! i)"
    by (rule sum_list_sum_nth)
  also have "\<dots> = (\<Sum>i = 0..<length xss. mset (xss ! i))"
    by (intro sum.cong) auto
  finally show ?thesis .
qed

lemma schedule_mset:
  assumes "is_schedule progs sched"
  shows "mset (map snd sched) = mset (concat progs)"
proof -
  have a: "list_all (\<lambda>a. fst a < length progs) sched"
    and b: "\<And>i. i < length progs \<Longrightarrow> map snd (filter (\<lambda>a. fst a = i) sched) = progs ! i"
    using assms by (auto simp: is_schedule_def list_all_iff)
  have "mset (map snd sched)
        = (\<Sum>i = 0..<length progs. mset (map snd (filter (\<lambda>a. fst a = i) sched)))"
    using a by (rule schedule_partition)
  also have "\<dots> = (\<Sum>i = 0..<length progs. mset (progs ! i))"
    by (intro sum.cong) (auto simp: b)
  also have "\<dots> = mset (concat progs)" by (simp add: mset_concat_nth)
  finally show ?thesis .
qed

lemma schedule_extract:
  assumes "is_schedule (map P subs) sched"
  shows "mset (concat (map g (map snd sched))) = mset (concat (map (\<lambda>s. concat (map g (P s))) subs))"
proof -
  have "mset (concat (map g (map snd sched))) = mset (concat (map g (concat (map P subs))))"
    using schedule_mset [OF assms] by (rule mset_concat_map_cong)
  also have "concat (map g (concat (map P subs))) = concat (map (\<lambda>s. concat (map g (P s))) subs)"
    by (induction subs) auto
  finally show ?thesis .
qed

lemma run_order_invariant:
  "(\<forall>a \<in> set (run_order progs picks). fst a < length progs) \<and>
   length (unfinished progs picks) = length progs \<and>
   (\<forall>i < length progs.
      map snd (filter (\<lambda>a. fst a = i) (run_order progs picks)) @ unfinished progs picks ! i
        = progs ! i)"
proof (induction picks arbitrary: progs)
  case Nil
  show ?case by simp
next
  case (Cons j picks)
  show ?case
  proof (cases "j < length progs")
    case False
    then show ?thesis using Cons.IH [of progs] by simp
  next
    case True
    show ?thesis
    proof (cases "progs ! j")
      case Nil
      then show ?thesis using True Cons.IH [of progs] by simp
    next
      case (Cons st p)
      let ?progs' = "progs[j := p]"
      note ih = Cons.IH [of ?progs']
      have ro: "run_order progs (j # picks) = (j, st) # run_order ?progs' picks"
        using True Cons by simp
      have un: "unfinished progs (j # picks) = unfinished ?progs' picks"
        using True Cons by simp
      have a: "\<forall>a \<in> set (run_order progs (j # picks)). fst a < length progs"
        unfolding ro using ih True by simp
      have b: "length (unfinished progs (j # picks)) = length progs"
        unfolding un using ih by simp
      have c: "\<forall>i < length progs.
          map snd (filter (\<lambda>a. fst a = i) (run_order progs (j # picks)))
            @ unfinished progs (j # picks) ! i = progs ! i"
      proof (intro allI impI)
        fix i assume i: "i < length progs"
        have e: "map snd (filter (\<lambda>a. fst a = i) (run_order ?progs' picks))
                   @ unfinished ?progs' picks ! i = ?progs' ! i"
          using ih i by simp
        show "map snd (filter (\<lambda>a. fst a = i) (run_order progs (j # picks)))
            @ unfinished progs (j # picks) ! i = progs ! i"
        proof (cases "i = j")
          case True
          then show ?thesis unfolding ro un using e i Cons by simp
        next
          case False
          then show ?thesis unfolding ro un using e i by simp
        qed
      qed
      show ?thesis using a b c by blast
    qed
  qed
qed

lemma finished_is_schedule:
  assumes "all_finished progs picks"
  shows "is_schedule progs (run_order progs picks)"
proof -
  note inv = run_order_invariant [of progs picks]
  have e: "\<And>i. i < length progs \<Longrightarrow> unfinished progs picks ! i = []"
    using assms inv by (simp add: all_finished_def list_all_length)
  have "\<And>i. i < length progs \<Longrightarrow>
          map snd (filter (\<lambda>a. fst a = i) (run_order progs picks)) = progs ! i"
    using inv e by force
  then show ?thesis using inv by (simp add: is_schedule_def list_all_iff)
qed

text \<open>Every batch has a run to the end: the goroutines one after the other.\<close>

lemma unfinished_append:
  "unfinished progs (xs @ ys) = unfinished (unfinished progs xs) ys"
proof (induction xs arbitrary: progs)
  case Nil
  show ?case by simp
next
  case (Cons i xs)
  show ?case by (cases "progs ! i") (simp_all add: Cons.IH)
qed

lemma unfinished_run_one:
  "i < length progs \<Longrightarrow> progs ! i = p \<Longrightarrow>
     unfinished progs (replicate (length p) i) = progs[i := []]"
proof (induction p arbitrary: progs)
  case Nil
  then have "progs[i := []] = progs" by (metis list_update_id)
  then show ?case by simp
next
  case (Cons st q)
  have "unfinished (progs[i := q]) (replicate (length q) i) = (progs[i := q])[i := []]"
    using Cons.prems by (intro Cons.IH) simp_all
  then show ?case using Cons.prems by simp
qed

lemma unfinished_sequential_prefix:
  "k \<le> length progs \<Longrightarrow>
     unfinished progs (concat (map (\<lambda>i. replicate (length (progs ! i)) i) [0..<k]))
       = map (\<lambda>i. if i < k then [] else progs ! i) [0..<length progs]"
proof (induction k)
  case 0
  show ?case by (simp add: map_nth)
next
  case (Suc k)
  let ?M = "map (\<lambda>i. if i < k then [] else progs ! i) [0..<length progs]"
  have k: "k < length progs" using Suc.prems by simp
  have ih: "unfinished progs (concat (map (\<lambda>i. replicate (length (progs ! i)) i) [0..<k])) = ?M"
    using Suc.IH k by simp
  have mk: "?M ! k = progs ! k" using k by simp
  have "unfinished progs (concat (map (\<lambda>i. replicate (length (progs ! i)) i) [0..<Suc k]))
          = unfinished ?M (replicate (length (progs ! k)) k)"
    by (simp add: unfinished_append ih)
  also have "\<dots> = ?M[k := []]"
    using k mk by (intro unfinished_run_one) simp_all
  also have "\<dots> = map (\<lambda>i. if i < Suc k then [] else progs ! i) [0..<length progs]"
    by (rule nth_equalityI) (auto simp: nth_list_update less_Suc_eq)
  finally show ?case .
qed

lemma sequential_picks_finish: "all_finished progs (sequential_picks progs)"
  using unfinished_sequential_prefix [of "length progs" progs]
  by (simp add: all_finished_def sequential_picks_def list_all_iff)

subsection \<open>The steps of one goroutine\<close>

lemma run_events:
  "snd (snd (foldl exec_step (d, rs, evs) steps)) = evs @ concat (map step_events steps)"
proof (induction steps arbitrary: d rs evs)
  case Nil
  show ?case by simp
next
  case (Cons st steps)
  show ?case
    by (cases st)
       (auto simp: Cons.IH LogDelivery_def DeleteSubscriptionByID_def
             split: prod.splits option.splits)
qed

lemma goroutine_results:
  "concat (map step_results (goroutine send e pl pub priv contact s)) =
     [\<lparr>sent = spec_successful (send (call_for pl pub priv contact s)),
       staleRemoved = spec_stale (send (call_for pl pub priv contact s))\<rparr>]"
  by (cases "send (call_for pl pub priv contact s)")
     (auto simp: goroutine_def Let_def spec_successful_def spec_stale_def)

lemma goroutine_calls:
  "concat (map step_calls (goroutine send e pl pub priv contact s)) = [call_for pl pub priv contact s]"
  by (cases "send (call_for pl pub priv contact s)") (auto simp: goroutine_def Let_def)

lemma goroutine_deletes:
  "concat (map step_deletes (goroutine send e pl pub priv contact s)) =
     (if spec_stale (send (call_for pl pub priv contact s)) \<and> \<not> delete_fault e then [ID s] else [])"
  by (cases "send (call_for pl pub priv contact s)")
     (auto simp: goroutine_def Let_def spec_stale_def)

lemma goroutine_rows:
  "concat (map step_rows (goroutine send e pl pub priv contact s)) =
     (if log_fault e then []
      else [(ID s, log_at e, spec_status (send (call_for pl pub priv contact s)),
             spec_error_text (send (call_for pl pub priv contact s)))])"
  by (cases "send (call_for pl pub priv contact s)")
     (auto simp: goroutine_def Let_def spec_status_def spec_error_text_def)

lemma goroutine_delete_after_log:
  assumes "us @ ExecDelete f sid # vs = goroutine send e pl pub priv contact s"
  shows "sid = ID s \<and> (\<exists>now code err. ExecLog now (log_fault e) sid code err \<in> set us)"
proof -
  obtain c a b r where g: "goroutine send e pl pub priv contact s =
      [CallPush c, ExecLog (log_at e) (log_fault e) (ID s) a b]
      @ (if a = 404 \<or> a = 410 then [ExecDelete (delete_fault e) (ID s)] else []) @ [PutResult r]"
    by (cases "send (call_for pl pub priv contact s)") (auto simp: goroutine_def Let_def)
  have "us = [CallPush c, ExecLog (log_at e) (log_fault e) (ID s) a b] \<and> sid = ID s"
    using assms unfolding g
    by (auto simp: append_eq_Cons_conv Cons_eq_append_conv split: if_splits)
  then show ?thesis by auto
qed

subsection \<open>Log before eviction, in every schedule\<close>

lemma log_then_evict_mono:
  "log_then_evict seen es \<Longrightarrow> set seen \<subseteq> set seen' \<Longrightarrow> log_then_evict seen' es"
proof (induction es arbitrary: seen seen')
  case Nil
  show ?case by simp
next
  case (Cons e es)
  show ?case
  proof (cases e)
    case (Dispatched c)
    with Cons.prems have "log_then_evict seen es" by simp
    then have "log_then_evict seen' es" using Cons.prems(2) by (rule Cons.IH)
    with Dispatched show ?thesis by simp
  next
    case (Logged i code err)
    with Cons.prems have "log_then_evict (i # seen) es" by simp
    moreover have "set (i # seen) \<subseteq> set (i # seen')" using Cons.prems(2) by auto
    ultimately have "log_then_evict (i # seen') es" by (rule Cons.IH)
    with Logged show ?thesis by simp
  next
    case (Deleted i)
    with Cons.prems have a: "i \<in> set seen" and b: "log_then_evict seen es" by simp_all
    from b have "log_then_evict seen' es" using Cons.prems(2) by (rule Cons.IH)
    moreover have "i \<in> set seen'" using a Cons.prems(2) by auto
    ultimately show ?thesis using Deleted by simp
  qed
qed

lemma schedule_log_then_evict_suffix:
  assumes sch: "is_schedule (map (\<lambda>s. goroutine send (env s) pl pub priv contact s) subs) sched"
      and nf: "\<forall>s \<in> set subs. \<not> log_fault (env s)"
  shows "sched = pre @ rest \<Longrightarrow>
         log_then_evict (concat (map step_logged (map snd pre)))
           (concat (map step_events (map snd rest)))"
proof (induction rest arbitrary: pre)
  case Nil
  show ?case by simp
next
  case (Cons a rest)
  have split: "sched = (pre @ [a]) @ rest" using Cons.prems by simp
  note ih = Cons.IH [OF split]
  obtain i st where a: "a = (i, st)" by (cases a)
  show ?case
  proof (cases st)
    case (CallPush c)
    then show ?thesis using ih a by simp
  next
    case (PutResult r)
    then show ?thesis using ih a by simp
  next
    case (ExecLog now fault sid code err)
    show ?thesis
    proof (cases fault)
      case True
      then show ?thesis using ih a ExecLog by simp
    next
      case False
      have "log_then_evict (concat (map step_logged (map snd pre)) @ [sid])
              (concat (map step_events (map snd rest)))"
        using ih a ExecLog False by simp
      then have "log_then_evict (sid # concat (map step_logged (map snd pre)))
              (concat (map step_events (map snd rest)))"
        by (rule log_then_evict_mono) auto
      then show ?thesis using a ExecLog False by simp
    qed
  next
    case (ExecDelete fault sid)
    show ?thesis
    proof (cases fault)
      case True
      then show ?thesis using ih a ExecDelete by simp
    next
      case False
      have tag: "i < length subs"
        using sch Cons.prems a by (auto simp: is_schedule_def list_all_iff)
      then have sel: "map snd (filter (\<lambda>b. fst b = i) sched)
                        = goroutine send (env (subs ! i)) pl pub priv contact (subs ! i)"
        using sch by (auto simp: is_schedule_def list_all_iff)
      have "map snd (filter (\<lambda>b. fst b = i) sched)
              = map snd (filter (\<lambda>b. fst b = i) pre) @ ExecDelete fault sid
                  # map snd (filter (\<lambda>b. fst b = i) rest)"
        using Cons.prems a ExecDelete by simp
      then have eq: "map snd (filter (\<lambda>b. fst b = i) pre) @ ExecDelete fault sid
                  # map snd (filter (\<lambda>b. fst b = i) rest)
              = goroutine send (env (subs ! i)) pl pub priv contact (subs ! i)"
        using sel by simp
      from goroutine_delete_after_log [OF eq]
      obtain now code err where
        lg: "ExecLog now (log_fault (env (subs ! i))) sid code err
               \<in> set (map snd (filter (\<lambda>b. fst b = i) pre))"
        by blast
      have "\<not> log_fault (env (subs ! i))" using nf tag by simp
      then have "ExecLog now False sid code err \<in> snd ` set pre" using lg by auto
      then have seen: "sid \<in> set (concat (map step_logged (map snd pre)))"
        by force
      have "log_then_evict (concat (map step_logged (map snd pre)))
              (concat (map step_events (map snd rest)))"
        using ih a ExecDelete by simp
      then show ?thesis using a ExecDelete False seen by simp
    qed
  qed
qed

lemma schedule_log_then_evict:
  assumes "is_schedule (map (\<lambda>s. goroutine send (env s) pl pub priv contact s) subs) sched"
      and "\<forall>s \<in> set subs. \<not> log_fault (env s)"
  shows "log_then_evict [] (concat (map step_events (map snd sched)))"
  using schedule_log_then_evict_suffix [OF assms, of "[]" sched] by simp

subsection \<open>Rows, counts and the steps of a batch\<close>

lemma filter_unique_key:
  "distinct (map f xs) \<Longrightarrow> s \<in> set xs \<Longrightarrow> filter (\<lambda>t. f t = f s) xs = [s]"
proof (induction xs)
  case Nil
  then show ?case by simp
next
  case (Cons x xs)
  show ?case
  proof (cases "s = x")
    case True
    have "f x \<notin> f ` set xs" using Cons.prems(1) by simp
    then have "filter (\<lambda>t. f t = f x) xs = []" by (force simp: filter_empty_conv image_iff)
    with True show ?thesis by simp
  next
    case False
    then have s: "s \<in> set xs" using Cons.prems(2) by simp
    then have "f x \<noteq> f s" using Cons.prems(1) by auto
    moreover have "filter (\<lambda>t. f t = f s) xs = [s]" using Cons.IH Cons.prems(1) s by simp
    ultimately show ?thesis by simp
  qed
qed

lemma rows_from_content: "map row_content (rows_from seq rows) = rows"
  by (induction seq rows rule: rows_from.induct) (auto simp: row_content_def)

lemma upt_0_Suc_map: "[0..<Suc n] = 0 # map Suc [0..<n]"
  by (simp add: upt_conv_Cons map_Suc_upt del: upt_Suc)

lemma rows_from_ids:
  "map log_id (rows_from seq rows) = map (\<lambda>k. seq + 1 + int k) [0..<length rows]"
proof (induction seq rows rule: rows_from.induct)
  case (1 seq)
  show ?case by simp
next
  case (2 seq sid now code err xs)
  have "map (\<lambda>k. seq + 1 + int k) [0..<length ((sid, now, code, err) # xs)]
        = map (\<lambda>k. seq + 1 + int k) (0 # map Suc [0..<length xs])"
    by (simp only: length_Cons upt_0_Suc_map)
  also have "\<dots> = (seq + 1) # map (\<lambda>k. seq + 1 + 1 + int k) [0..<length xs]"
    by (simp add: comp_def)
  finally show ?case using "2.IH" by simp
qed

lemma rows_from_filter:
  "map row_content (filter (\<lambda>e. subscription_id e = i) (rows_from seq rows))
     = filter (\<lambda>r. fst r = i) rows"
  by (induction seq rows rule: rows_from.induct) (auto simp: row_content_def)

lemma length_filter_mset_cong:
  "mset xs = mset ys \<Longrightarrow> length (filter P xs) = length (filter P ys)"
  by (metis mset_filter size_mset)

lemma foldl_tally_Sent:
  "Sent (foldl tally nr rs) = Sent nr + int (length (filter sent rs))"
  by (induction rs arbitrary: nr) (auto simp: tally_def Let_def)

lemma foldl_tally_StaleRemoved:
  "StaleRemoved (foldl tally nr rs) = StaleRemoved nr + int (length (filter staleRemoved rs))"
  by (induction rs arbitrary: nr) (auto simp: tally_def Let_def)

lemma foldl_tally_Failed:
  "Failed (foldl tally nr rs) =
     Failed nr + int (length (filter (\<lambda>r. \<not> sent r \<and> \<not> staleRemoved r) rs))
               + int (length (filter staleRemoved rs))"
  by (induction rs arbitrary: nr) (auto simp: tally_def Let_def)

lemma spec_classes_exclusive: "\<not> (spec_successful out \<and> spec_stale out)"
  by (auto simp: spec_successful_def spec_stale_def split: sum.splits)

lemma length_filter_partition3:
  assumes "\<And>x. x \<in> set xs \<Longrightarrow> \<not> (P x \<and> Q x)"
  shows "length (filter P xs) + length (filter (\<lambda>x. \<not> P x \<and> \<not> Q x) xs) + length (filter Q xs)
         = length xs"
  using assms by (induction xs) auto

lemma run_of_picks:
  assumes "pushPayload marshal req = Inr pl"
  shows "sendToSubscriptions marshal send env picks d subs req pub priv contact =
           (fst (foldl exec_step (d, [], []) (batch_steps send env pl pub priv contact subs picks)),
            aggregate (concat (map step_results (batch_steps send env pl pub priv contact subs picks))),
            concat (map step_events (batch_steps send env pl pub priv contact subs picks)))"
proof -
  let ?steps = "batch_steps send env pl pub priv contact subs picks"
  obtain d' rs evs where run: "foldl exec_step (d, [], []) ?steps = (d', rs, evs)"
    by (cases "foldl exec_step (d, [], []) ?steps") auto
  have r: "rs = concat (map step_results ?steps)"
    using run_results [of d "[]" "[]" ?steps] run by simp
  have e: "evs = concat (map step_events ?steps)"
    using run_events [of d "[]" "[]" ?steps] run by simp
  have "sendToSubscriptions marshal send env picks d subs req pub priv contact
          = (d', aggregate rs, evs)"
    using assms run by (simp add: sendToSubscriptions_def batch_steps_def)
  then show ?thesis using run r e by simp
qed

lemma batch_is_schedule:
  assumes "pushPayload marshal req = Inr pl"
      and "all_finished (goroutines marshal send env subs req pub priv contact) picks"
  shows "is_schedule (map (\<lambda>s. goroutine send (env s) pl pub priv contact s) subs)
           (run_order (map (\<lambda>s. goroutine send (env s) pl pub priv contact s) subs) picks)"
proof -
  have "all_finished (map (\<lambda>s. goroutine send (env s) pl pub priv contact s) subs) picks"
    using assms by (simp add: goroutines_def)
  then show ?thesis by (rule finished_is_schedule)
qed

lemma batch_extract:
  assumes "pushPayload marshal req = Inr pl"
      and "all_finished (goroutines marshal send env subs req pub priv contact) picks"
  shows "mset (concat (map g (batch_steps send env pl pub priv contact subs picks)))
           = mset (concat (map (\<lambda>s. concat (map g (goroutine send (env s) pl pub priv contact s)))
                             subs))"
  unfolding batch_steps_def
  using batch_is_schedule [OF assms] by (rule schedule_extract)

lemma batch_results:
  assumes "pushPayload marshal req = Inr pl"
      and "all_finished (goroutines marshal send env subs req pub priv contact) picks"
  shows "mset (concat (map step_results (batch_steps send env pl pub priv contact subs picks))) =
           mset (map (\<lambda>s. \<lparr>sent = spec_successful (send (call_for pl pub priv contact s)),
                          staleRemoved = spec_stale (send (call_for pl pub priv contact s))\<rparr>) subs)"
  using batch_extract [OF assms, of step_results]
  by (simp add: goroutine_results del: mset_map)

lemma batch_calls:
  assumes "pushPayload marshal req = Inr pl"
      and "all_finished (goroutines marshal send env subs req pub priv contact) picks"
  shows "mset (concat (map step_calls (batch_steps send env pl pub priv contact subs picks)))
           = mset (map (call_for pl pub priv contact) subs)"
  using batch_extract [OF assms, of step_calls]
  by (simp add: goroutine_calls del: mset_map)

lemma batch_log_then_evict:
  assumes "pushPayload marshal req = Inr pl"
      and "all_finished (goroutines marshal send env subs req pub priv contact) picks"
      and "\<forall>s \<in> set subs. \<not> log_fault (env s)"
  shows "log_then_evict [] (concat (map step_events (batch_steps send env pl pub priv contact subs picks)))"
  unfolding batch_steps_def
  using batch_is_schedule [OF assms(1,2)] assms(3) by (rule schedule_log_then_evict)

lemma dispatched_events:
  "dispatched (concat (map step_events steps)) = concat (map step_calls steps)"
proof (induction steps)
  case Nil
  show ?case by simp
next
  case (Cons st steps)
  show ?case by (cases st) (auto simp: Cons.IH dispatched_append)
qed

subsection \<open>The example batch\<close>

lemma ex_payload: "pushPayload ex_marshal ex_req = Inr ''{}''"
  by (simp add: pushPayload_def ex_marshal_def)

lemma ex_goroutines:
  "goroutines ex_marshal ex_send ex_env ex_subs ex_req ''pub'' ''priv'' ''mailto:a@b'' =
    [[CallPush (call_for ''{}'' ''pub'' ''priv'' ''mailto:a@b'' (ex_sub ''01'' ''alerts'' ''https://push.example/a'')),
      ExecLog 1000 False ''01'' 201 [],
      PutResult \<lparr>sent = True, staleRemoved = False\<rparr>],
     [CallPush (call_for ''{}'' ''pub'' ''priv'' ''mailto:a@b'' (ex_sub ''02'' [] ''https://push.example/b'')),
      ExecLog 1000 False ''02'' 0 ''dial tcp: i/o timeout'',
      PutResult \<lparr>sent = False, staleRemoved = False\<rparr>],
     [CallPush (call_for ''{}'' ''pub'' ''priv'' ''mailto:a@b'' (ex_sub ''03'' ''alerts'' ''https://push.example/c'')),
      ExecLog 1000 False ''03'' 410 [],
      ExecDelete False ''03'',
      PutResult \<lparr>sent = False, staleRemoved = True\<rparr>],
     [CallPush (call_for ''{}'' ''pub'' ''priv'' ''mailto:a@b'' (ex_sub ''04'' ''other'' ''https://push.example/d'')),
      ExecLog 1000 False ''04'' 400 [],
      PutResult \<lparr>sent = False, staleRemoved = False\<rparr>]]"
  by (simp add: goroutines_def ex_payload ex_subs_def goroutine_def Let_def ex_send_def ex_env_def
        call_for_def ex_sub_def)

lemma ex_batch_steps:
  "batch_steps ex_send ex_env ''{}'' ''pub'' ''priv'' ''mailto:a@b'' ex_subs ex_picks =
    [CallPush (call_for ''{}'' ''pub'' ''priv'' ''mailto:a@b'' (ex_sub ''01'' ''alerts'' ''https://push.example/a'')),
     CallPush (call_for ''{}'' ''pub'' ''priv'' ''mailto:a@b'' (ex_sub ''02'' [] ''https://push.example/b'')),
     CallPush (call_for ''{}'' ''pub'' ''priv'' ''mailto:a@b'' (ex_sub ''03'' ''alerts'' ''https://push.example/c'')),
     CallPush (call_for ''{}'' ''pub'' ''priv'' ''mailto:a@b'' (ex_sub ''04'' ''other'' ''https://push.example/d'')),
     ExecLog 1000 False ''01'' 201 [],
     ExecLog 1000 False ''02'' 0 ''dial tcp: i/o timeout'',
     ExecLog 1000 False ''03'' 410 [],
     ExecLog 1000 False ''04'' 400 [],
     ExecDelete False ''03'',
     PutResult \<lparr>sent = False, staleRemoved = False\<rparr>,
     PutResult \<lparr>sent = True, staleRemoved = False\<rparr>,
     PutResult \<lparr>sent = False, staleRemoved = False\<rparr>,
     PutResult \<lparr>sent = False, staleRemoved = True\<rparr>]"
proof -
  have "map (\<lambda>s. goroutine ex_send (ex_env s) ''{}'' ''pub'' ''priv'' ''mailto:a@b'' s) ex_subs
          = goroutines ex_marshal ex_send ex_env ex_subs ex_req ''pub'' ''priv'' ''mailto:a@b''"
    by (simp add: goroutines_def ex_payload)
  then show ?thesis
    unfolding batch_steps_def ex_goroutines ex_picks_def by simp
qed

lemma ex_all_finished:
  "all_finished (goroutines ex_marshal ex_send ex_env ex_subs ex_req ''pub'' ''priv'' ''mailto:a@b'')
     ex_picks"
  unfolding ex_goroutines ex_picks_def by (simp add: all_finished_def)

subsection \<open>The claims about the fan-out\<close>

text \<open>
  Claim C1.  When the payload could be built, then in every run of the goroutines to the
  end, however their steps interleave, every delivery of a batch falls into exactly one of
  the three classes (successful, stale, other failure), and the aggregate returned by \<open>sendToSubscriptions\<close> has \<open>Sent\<close> = number
  of successful deliveries, \<open>StaleRemoved\<close> = number of stale deliveries, \<open>Failed\<close> = number
  of other failures plus number of stale deliveries, so that \<open>Sent + Failed\<close> is the number
  of subscriptions in the batch.
\<close>

theorem fanout_counts:
  assumes "pushPayload marshal req = Inr pl"
      and "all_finished (goroutines marshal send env subs req pub priv contact) picks"
  shows "let outs = map (\<lambda>s. send (call_for pl pub priv contact s)) subs;
             nr = fst (snd (sendToSubscriptions marshal send env picks d subs req pub priv contact))
         in Sent nr = int (length (filter spec_successful outs)) \<and>
            StaleRemoved nr = int (length (filter spec_stale outs)) \<and>
            Failed nr = int (length (filter spec_other_failure outs))
                        + int (length (filter spec_stale outs)) \<and>
            Sent nr + Failed nr = int (length subs) \<and>
            (\<forall>out \<in> set outs.
               (spec_successful out \<and> \<not> spec_stale out \<and> \<not> spec_other_failure out) \<or>
               (\<not> spec_successful out \<and> spec_stale out \<and> \<not> spec_other_failure out) \<or>
               (\<not> spec_successful out \<and> \<not> spec_stale out \<and> spec_other_failure out))"
proof -
  let ?out = "\<lambda>s. send (call_for pl pub priv contact s)"
  let ?outs = "map ?out subs"
  let ?rs = "map (\<lambda>s. \<lparr>sent = spec_successful (?out s), staleRemoved = spec_stale (?out s)\<rparr>) subs"
  let ?ch = "concat (map step_results (batch_steps send env pl pub priv contact subs picks))"
  let ?nr = "fst (snd (sendToSubscriptions marshal send env picks d subs req pub priv contact))"
  have nr: "?nr = foldl tally NotifyResult0 ?ch"
    using run_of_picks [OF assms(1), of send env picks d subs pub priv contact]
    by (simp add: aggregate_def)
  have ms: "mset ?ch = mset ?rs" by (rule batch_results [OF assms])
  have f1: "length (filter sent ?ch) = length (filter spec_successful ?outs)"
    using length_filter_mset_cong [OF ms, of sent] by (simp add: filter_map comp_def)
  have f2: "length (filter staleRemoved ?ch) = length (filter spec_stale ?outs)"
    using length_filter_mset_cong [OF ms, of staleRemoved] by (simp add: filter_map comp_def)
  have f3: "length (filter (\<lambda>r. \<not> sent r \<and> \<not> staleRemoved r) ?ch)
            = length (filter spec_other_failure ?outs)"
    using length_filter_mset_cong [OF ms, of "\<lambda>r. \<not> sent r \<and> \<not> staleRemoved r"]
    by (simp add: filter_map comp_def spec_other_failure_def)
  have s: "Sent ?nr = int (length (filter spec_successful ?outs))"
    by (simp only: nr foldl_tally_Sent f1) (simp add: NotifyResult0_def)
  have st: "StaleRemoved ?nr = int (length (filter spec_stale ?outs))"
    by (simp only: nr foldl_tally_StaleRemoved f2) (simp add: NotifyResult0_def)
  have fl: "Failed ?nr = int (length (filter spec_other_failure ?outs))
                        + int (length (filter spec_stale ?outs))"
    by (simp only: nr foldl_tally_Failed f2 f3) (simp add: NotifyResult0_def)
  have part: "length (filter spec_successful ?outs) + length (filter spec_other_failure ?outs)
              + length (filter spec_stale ?outs) = length ?outs"
    unfolding spec_other_failure_def
    by (rule length_filter_partition3) (simp add: spec_classes_exclusive)
  have total: "Sent ?nr + Failed ?nr = int (length subs)"
    using s fl part by simp
  have excl: "\<forall>out \<in> set ?outs.
               (spec_successful out \<and> \<not> spec_stale out \<and> \<not> spec_other_failure out) \<or>
               (\<not> spec_successful out \<and> spec_stale out \<and> \<not> spec_other_failure out) \<or>
               (\<not> spec_successful out \<and> \<not> spec_stale out \<and> spec_other_failure out)"
    using spec_classes_exclusive by (auto simp: spec_other_failure_def)
  show ?thesis
    unfolding Let_def using s st fl total excl by blast
qed

theorem fanout_counts_witness:
  "pushPayload ex_marshal ex_req = Inr ''{}'' \<and>
   all_finished (goroutines ex_marshal ex_send ex_env ex_subs ex_req ''pub'' ''priv'' ''mailto:a@b'')
     ex_picks \<and>
   fst (snd (sendToSubscriptions ex_marshal ex_send ex_env ex_picks ex_db ex_subs ex_req
               ''pub'' ''priv'' ''mailto:a@b''))
     = \<lparr>Sent = 1, Failed = 3, StaleRemoved = 1\<rparr> \<and>
   all_finished (goroutines ex_marshal ex_send ex_env [] ex_req ''pub'' ''priv'' ''mailto:a@b'') [] \<and>
   fst (snd (sendToSubscriptions ex_marshal ex_send ex_env [] ex_db [] ex_req
               ''pub'' ''priv'' ''mailto:a@b''))
     = \<lparr>Sent = 0, Failed = 0, StaleRemoved = 0\<rparr>"
proof -
  have outs: "map (\<lambda>s. ex_send (call_for ''{}'' ''pub'' ''priv'' ''mailto:a@b'' s)) ex_subs
        = [Inr 201, Inl ''dial tcp: i/o timeout'', Inr 410, Inr 400]"
    by (simp add: ex_subs_def ex_sub_def ex_send_def call_for_def)
  have c: "filter spec_successful [Inr 201, Inl ''dial tcp: i/o timeout'', Inr 410, Inr 400] = [Inr 201]"
     "filter spec_stale [Inr 201, Inl ''dial tcp: i/o timeout'', Inr 410, Inr 400] = [Inr 410]"
     "filter spec_other_failure [Inr 201, Inl ''dial tcp: i/o timeout'', Inr 410, Inr 400]
        = [Inl ''dial tcp: i/o timeout'', Inr 400]"
    by (simp_all add: spec_successful_def spec_stale_def spec_other_failure_def)
  have e: "all_finished (goroutines ex_marshal ex_send ex_env [] ex_req ''pub'' ''priv'' ''mailto:a@b'') []"
    by (simp add: all_finished_def goroutines_def ex_payload)
  have a: "Sent (fst (snd (sendToSubscriptions ex_marshal ex_send ex_env ex_picks ex_db ex_subs ex_req
               ''pub'' ''priv'' ''mailto:a@b''))) = 1 \<and>
        Failed (fst (snd (sendToSubscriptions ex_marshal ex_send ex_env ex_picks ex_db ex_subs ex_req
               ''pub'' ''priv'' ''mailto:a@b''))) = 3 \<and>
        StaleRemoved (fst (snd (sendToSubscriptions ex_marshal ex_send ex_env ex_picks ex_db ex_subs ex_req
               ''pub'' ''priv'' ''mailto:a@b''))) = 1"
    using fanout_counts [OF ex_payload ex_all_finished, of ex_db]
    unfolding Let_def outs c by simp
  have b: "Sent (fst (snd (sendToSubscriptions ex_marshal ex_send ex_env [] ex_db [] ex_req
               ''pub'' ''priv'' ''mailto:a@b''))) = 0 \<and>
        Failed (fst (snd (sendToSubscriptions ex_marshal ex_send ex_env [] ex_db [] ex_req
               ''pub'' ''priv'' ''mailto:a@b''))) = 0 \<and>
        StaleRemoved (fst (snd (sendToSubscriptions ex_marshal ex_send ex_env [] ex_db [] ex_req
               ''pub'' ''priv'' ''mailto:a@b''))) = 0"
    using fanout_counts [OF ex_payload e, of ex_db]
    unfolding Let_def by simp
  show ?thesis using ex_payload ex_all_finished e a b by (simp add: NotifyResult.equality)
qed

text \<open>
  Claim C3.  When the payload could be built and no storage statement of the batch fails,
  then in every run of the goroutines to the end \<open>sendToSubscriptions\<close> only appends to the
  delivery log, and what it appends is exactly one row for each subscription of the batch,
  holding the subscription's id, the raw status code (0 for a transport error) and the
  error text, whatever the class of the outcome.  In the events of the run every deletion
  comes after a log row of the same subscription.  A subscription whose delivery returned
  404 or 410 is absent from the store afterwards, and when the ids of the batch are
  distinct and the log held no row for it before, the log then holds exactly one row for
  it, with that status code.
\<close>

theorem log_every_dispatch_then_evict:
  assumes "pushPayload marshal req = Inr pl"
      and "all_finished (goroutines marshal send env subs req pub priv contact) picks"
      and "\<forall>s \<in> set subs. \<not> log_fault (env s) \<and> \<not> delete_fault (env s)"
  shows "let out = (\<lambda>s. send (call_for pl pub priv contact s));
             (d', nr, evs) = sendToSubscriptions marshal send env picks d subs req pub priv contact;
             new = drop (length (delivery_log d)) (delivery_log d')
         in delivery_log d' = delivery_log d @ new \<and>
            mset (map row_content new) = mset (map (spec_log_row env out) subs) \<and>
            map log_id new = map (\<lambda>k. log_seq d + 1 + int k) [0..<length subs] \<and>
            log_then_evict [] evs \<and>
            (\<forall>s \<in> set subs. spec_stale (out s) \<longrightarrow>
               ID s \<notin> ID ` set (subscriptions d') \<and>
               (distinct (map ID subs) \<and> ID s \<notin> subscription_id ` set (delivery_log d) \<longrightarrow>
                  (\<exists>e. filter (\<lambda>e. subscription_id e = ID s) (delivery_log d') = [e] \<and>
                       status_code e = spec_status (out s) \<and>
                       error_text e = spec_error_text (out s))))"
proof -
  let ?out = "\<lambda>s. send (call_for pl pub priv contact s)"
  let ?P = "\<lambda>s. goroutine send (env s) pl pub priv contact s"
  let ?steps = "batch_steps send env pl pub priv contact subs picks"
  let ?rows = "concat (map step_rows ?steps)"
  let ?d' = "fst (foldl exec_step (d, [], []) ?steps)"
  let ?evs = "concat (map step_events ?steps)"
  have run: "sendToSubscriptions marshal send env picks d subs req pub priv contact =
           (?d', aggregate (concat (map step_results ?steps)), ?evs)"
    by (rule run_of_picks [OF assms(1)])
  have nlf: "\<forall>s \<in> set subs. \<not> log_fault (env s)" using assms(3) by simp
  have rows: "mset ?rows = mset (map (spec_log_row env ?out) subs)"
  proof -
    have "concat (map (\<lambda>s. concat (map step_rows (?P s))) subs) = map (spec_log_row env ?out) subs"
      using nlf by (induction subs) (auto simp: goroutine_rows spec_log_row_def)
    then show ?thesis using batch_extract [OF assms(1,2), of step_rows] by (simp del: mset_map)
  qed
  have dels: "set (concat (map step_deletes ?steps)) = {ID s | s. s \<in> set subs \<and> spec_stale (?out s)}"
  proof -
    have "concat (map (\<lambda>s. concat (map step_deletes (?P s))) subs)
            = map ID (filter (\<lambda>s. spec_stale (?out s)) subs)"
      using assms(3) by (induction subs) (auto simp: goroutine_deletes)
    then have "mset (concat (map step_deletes ?steps))
                 = mset (map ID (filter (\<lambda>s. spec_stale (?out s)) subs))"
      using batch_extract [OF assms(1,2), of step_deletes] by (simp del: mset_map mset_filter)
    then have "set (concat (map step_deletes ?steps))
                 = set (map ID (filter (\<lambda>s. spec_stale (?out s)) subs))"
      by (rule mset_eq_setD)
    then show ?thesis by auto
  qed
  have log: "delivery_log ?d' = delivery_log d @ rows_from (log_seq d) ?rows"
    using run_log [of d "[]" "[]" ?steps] by simp
  have len: "length ?rows = length subs"
    using mset_eq_length [OF rows] by simp
  have new: "drop (length (delivery_log d)) (delivery_log ?d') = rows_from (log_seq d) ?rows"
    unfolding log by simp
  have c1: "delivery_log ?d' = delivery_log d @ drop (length (delivery_log d)) (delivery_log ?d')"
    unfolding new by (rule log)
  have c2: "mset (map row_content (drop (length (delivery_log d)) (delivery_log ?d')))
              = mset (map (spec_log_row env ?out) subs)"
    unfolding new rows_from_content by (rule rows)
  have c3: "map log_id (drop (length (delivery_log d)) (delivery_log ?d'))
              = map (\<lambda>k. log_seq d + 1 + int k) [0..<length subs]"
    unfolding new rows_from_ids len by simp
  have c4: "log_then_evict [] ?evs"
    using assms(1,2) nlf by (rule batch_log_then_evict)
  have subs': "subscriptions ?d'
                 = filter (\<lambda>s'. ID s' \<notin> set (concat (map step_deletes ?steps))) (subscriptions d)"
    using run_subscriptions [of d "[]" "[]" ?steps] by simp
  have c5: "\<forall>s \<in> set subs. spec_stale (?out s) \<longrightarrow>
               ID s \<notin> ID ` set (subscriptions ?d') \<and>
               (distinct (map ID subs) \<and> ID s \<notin> subscription_id ` set (delivery_log d) \<longrightarrow>
                  (\<exists>e. filter (\<lambda>e. subscription_id e = ID s) (delivery_log ?d') = [e] \<and>
                       status_code e = spec_status (?out s) \<and>
                       error_text e = spec_error_text (?out s)))"
  proof (intro ballI impI conjI)
    fix s assume s: "s \<in> set subs" and st: "spec_stale (?out s)"
    have "ID s \<in> set (concat (map step_deletes ?steps))" unfolding dels using s st by blast
    then show "ID s \<notin> ID ` set (subscriptions ?d')" unfolding subs' by auto
  next
    fix s assume s: "s \<in> set subs" and st: "spec_stale (?out s)"
      and h: "distinct (map ID subs) \<and> ID s \<notin> subscription_id ` set (delivery_log d)"
    have old: "filter (\<lambda>e. subscription_id e = ID s) (delivery_log d) = []"
      using h by (force simp: filter_empty_conv image_iff)
    have "filter (\<lambda>t. ID t = ID s) subs = [s]"
      using h s by (intro filter_unique_key) simp_all
    then have one: "filter (\<lambda>r. fst r = ID s) (map (spec_log_row env ?out) subs)
                      = [spec_log_row env ?out s]"
      by (simp add: filter_map comp_def spec_log_row_def)
    have "mset (filter (\<lambda>r. fst r = ID s) ?rows)
            = mset (filter (\<lambda>r. fst r = ID s) (map (spec_log_row env ?out) subs))"
      using rows by (simp only: mset_filter)
    then have "mset (filter (\<lambda>r. fst r = ID s) ?rows) = {#spec_log_row env ?out s#}"
      unfolding one by simp
    then have fr: "filter (\<lambda>r. fst r = ID s) ?rows = [spec_log_row env ?out s]"
      by (simp only: mset_single_iff)
    have "map row_content (filter (\<lambda>e. subscription_id e = ID s) (rows_from (log_seq d) ?rows))
            = [spec_log_row env ?out s]"
      unfolding rows_from_filter by (rule fr)
    then obtain e where
      e: "filter (\<lambda>e. subscription_id e = ID s) (rows_from (log_seq d) ?rows) = [e]"
         "row_content e = spec_log_row env ?out s"
      by (auto simp: map_eq_Cons_conv)
    have "status_code e = spec_status (?out s) \<and> error_text e = spec_error_text (?out s)"
      using e(2) by (simp add: row_content_def spec_log_row_def)
    then show "\<exists>e. filter (\<lambda>e. subscription_id e = ID s) (delivery_log ?d') = [e] \<and>
                       status_code e = spec_status (?out s) \<and>
                       error_text e = spec_error_text (?out s)"
      unfolding log using old e(1) by simp
  qed
  show ?thesis
    unfolding Let_def run prod.case using c1 c2 c3 c4 c5 by blast
qed

theorem log_every_dispatch_then_evict_witness:
  "pushPayload ex_marshal ex_req = Inr ''{}'' \<and>
   all_finished (goroutines ex_marshal ex_send ex_env ex_subs ex_req ''pub'' ''priv'' ''mailto:a@b'')
     ex_picks \<and>
   list_all (\<lambda>s. \<not> log_fault (ex_env s) \<and> \<not> delete_fault (ex_env s)) ex_subs \<and>
   distinct (map ID ex_subs) \<and>
   spec_stale (ex_send (call_for ''{}'' ''pub'' ''priv'' ''mailto:a@b''
                  (ex_sub ''03'' ''alerts'' ''https://push.example/c''))) \<and>
   (case sendToSubscriptions ex_marshal ex_send ex_env ex_picks ex_db ex_subs ex_req
            ''pub'' ''priv'' ''mailto:a@b'' of
      (d', nr, evs) \<Rightarrow>
         map row_content (delivery_log d') =
           [(''01'', 1000, 201, []), (''02'', 1000, 0, ''dial tcp: i/o timeout''),
            (''03'', 1000, 410, []), (''04'', 1000, 400, [])] \<and>
         map log_id (delivery_log d') = [1, 2, 3, 4] \<and>
         map ID (subscriptions d') = [''01'', ''02'', ''04''] \<and>
         ''03'' \<notin> ID ` set (subscriptions d') \<and>
         log_then_evict [] evs)"
proof -
  have nf: "\<forall>s \<in> set ex_subs. \<not> log_fault (ex_env s) \<and> \<not> delete_fault (ex_env s)"
    by (simp add: ex_env_def)
  have nf': "list_all (\<lambda>s. \<not> log_fault (ex_env s) \<and> \<not> delete_fault (ex_env s)) ex_subs"
    using nf by (simp add: list_all_iff)
  have dist: "distinct (map ID ex_subs)"
    by (simp add: ex_subs_def ex_sub_def)
  have st: "spec_stale (ex_send (call_for ''{}'' ''pub'' ''priv'' ''mailto:a@b''
                  (ex_sub ''03'' ''alerts'' ''https://push.example/c'')))"
    by (simp add: spec_stale_def ex_send_def call_for_def ex_sub_def)
  have mem: "ex_sub ''03'' ''alerts'' ''https://push.example/c'' \<in> set ex_subs"
    by (simp add: ex_subs_def)
  obtain d' nr evs where run:
    "sendToSubscriptions ex_marshal ex_send ex_env ex_picks ex_db ex_subs ex_req
            ''pub'' ''priv'' ''mailto:a@b'' = (d', nr, evs)"
    by (cases "sendToSubscriptions ex_marshal ex_send ex_env ex_picks ex_db ex_subs ex_req
            ''pub'' ''priv'' ''mailto:a@b''") auto
  note t = log_every_dispatch_then_evict [OF ex_payload ex_all_finished nf, of ex_db,
      unfolded Let_def run prod.case]
  have ev: "log_then_evict [] evs" using t by blast
  have gone: "ID (ex_sub ''03'' ''alerts'' ''https://push.example/c'') \<notin> ID ` set (subscriptions d')"
    using t st mem by blast
  have g2: "''03'' \<notin> ID ` set (subscriptions d')"
    using gone by (simp add: ex_sub_def)
  have d': "d' = fst (foldl exec_step (ex_db, [], [])
                        (batch_steps ex_send ex_env ''{}'' ''pub'' ''priv'' ''mailto:a@b'' ex_subs ex_picks))"
    using run run_of_picks [OF ex_payload, of ex_send ex_env ex_picks ex_db ex_subs
                              "''pub''" "''priv''" "''mailto:a@b''"] by simp
  have l: "map row_content (delivery_log d') =
           [(''01'', 1000, 201, []), (''02'', 1000, 0, ''dial tcp: i/o timeout''),
            (''03'', 1000, 410, []), (''04'', 1000, 400, [])] \<and>
         map log_id (delivery_log d') = [1, 2, 3, 4] \<and>
         map ID (subscriptions d') = [''01'', ''02'', ''04'']"
    unfolding d' ex_batch_steps
    by (simp add: ex_db_def ex_subs_def ex_sub_def LogDelivery_def DeleteSubscriptionByID_def
          row_content_def)
  show ?thesis using ex_payload ex_all_finished nf' dist st l g2 ev unfolding run by simp
qed

text \<open>
  Claim C8.  When the read succeeds and the payload could be built, then in every run to
  the end \<open>SendNotifications\<close> calls the push primitive once for each subscription the
  read returned and for no other: with a non-empty topic these are exactly the stored
  subscriptions whose topic equals the requested one, with the empty topic all stored
  subscriptions.
\<close>

theorem topic_filtering:
  assumes "pushPayload marshal req = Inr pl"
      and "GetSubscriptionsByTopic d False (ReqTopic req) = Inr subs"
      and "all_finished (goroutines marshal send env subs req pub priv contact) picks"
  shows "mset (dispatched (snd (snd
            (SendNotifications marshal send env False picks d req pub priv contact))))
           = mset (map (call_for pl pub priv contact) subs) \<and>
         (ReqTopic req \<noteq> [] \<longrightarrow> subs = filter (\<lambda>s. Topic s = ReqTopic req) (subscriptions d)) \<and>
         (ReqTopic req = [] \<longrightarrow> subs = subscriptions d)"
proof -
  let ?steps = "batch_steps send env pl pub priv contact subs picks"
  have "SendNotifications marshal send env False picks d req pub priv contact
          = sendToSubscriptions marshal send env picks d subs req pub priv contact"
    using assms(2) by (simp add: SendNotifications_def)
  then have "snd (snd (SendNotifications marshal send env False picks d req pub priv contact))
          = concat (map step_events ?steps)"
    using run_of_picks [OF assms(1), of send env picks d subs pub priv contact] by simp
  then have "dispatched (snd (snd
            (SendNotifications marshal send env False picks d req pub priv contact)))
          = concat (map step_calls ?steps)"
    by (simp only: dispatched_events)
  then have a: "mset (dispatched (snd (snd
            (SendNotifications marshal send env False picks d req pub priv contact))))
           = mset (map (call_for pl pub priv contact) subs)"
    using batch_calls [OF assms(1,3)] by simp
  have b: "(ReqTopic req \<noteq> [] \<longrightarrow> subs = filter (\<lambda>s. Topic s = ReqTopic req) (subscriptions d)) \<and>
         (ReqTopic req = [] \<longrightarrow> subs = subscriptions d)"
    using assms(2) by (auto simp: GetSubscriptionsByTopic_def split: if_splits)
  show ?thesis using a b by blast
qed

theorem topic_filtering_witness:
  "pushPayload ex_marshal (ex_req\<lparr>ReqTopic := ''alerts''\<rparr>) = Inr ''{}'' \<and>
   GetSubscriptionsByTopic ex_db False (ReqTopic (ex_req\<lparr>ReqTopic := ''alerts''\<rparr>))
     = Inr [ex_sub ''01'' ''alerts'' ''https://push.example/a'',
            ex_sub ''03'' ''alerts'' ''https://push.example/c''] \<and>
   mset (map wp_endpoint (dispatched (snd (snd (SendNotifications ex_marshal ex_send ex_env False
       (sequential_picks (goroutines ex_marshal ex_send ex_env
          [ex_sub ''01'' ''alerts'' ''https://push.example/a'',
           ex_sub ''03'' ''alerts'' ''https://push.example/c'']
          (ex_req\<lparr>ReqTopic := ''alerts''\<rparr>) ''pub'' ''priv'' ''mailto:a@b''))
       ex_db (ex_req\<lparr>ReqTopic := ''alerts''\<rparr>) ''pub'' ''priv'' ''mailto:a@b'')))))
     = mset [''https://push.example/a'', ''https://push.example/c''] \<and>
   pushPayload ex_marshal ex_req = Inr ''{}'' \<and>
   GetSubscriptionsByTopic ex_db False (ReqTopic ex_req) = Inr ex_subs \<and>
   mset (map wp_endpoint (dispatched (snd (snd (SendNotifications ex_marshal ex_send ex_env False
       ex_picks ex_db ex_req ''pub'' ''priv'' ''mailto:a@b'')))))
     = mset [''https://push.example/a'', ''https://push.example/b'', ''https://push.example/c'',
        ''https://push.example/d'']"
proof -
  let ?req = "ex_req\<lparr>ReqTopic := ''alerts''\<rparr>"
  let ?subs = "[ex_sub ''01'' ''alerts'' ''https://push.example/a'',
                ex_sub ''03'' ''alerts'' ''https://push.example/c'']"
  have p1: "pushPayload ex_marshal ?req = Inr ''{}''"
    by (simp add: pushPayload_def ex_marshal_def)
  have g1: "GetSubscriptionsByTopic ex_db False (ReqTopic ?req) = Inr ?subs"
    by (simp add: GetSubscriptionsByTopic_def ex_db_def ex_subs_def ex_sub_def)
  have g2: "GetSubscriptionsByTopic ex_db False (ReqTopic ex_req) = Inr ex_subs"
    by (simp add: GetSubscriptionsByTopic_def ex_db_def ex_req_def)
  have s1: "all_finished (goroutines ex_marshal ex_send ex_env ?subs ?req ''pub'' ''priv'' ''mailto:a@b'')
              (sequential_picks
                 (goroutines ex_marshal ex_send ex_env ?subs ?req ''pub'' ''priv'' ''mailto:a@b''))"
    by (rule sequential_picks_finish)
  have a: "mset (dispatched (snd (snd (SendNotifications ex_marshal ex_send ex_env False
       (sequential_picks (goroutines ex_marshal ex_send ex_env ?subs ?req
           ''pub'' ''priv'' ''mailto:a@b''))
       ex_db ?req ''pub'' ''priv'' ''mailto:a@b''))))
     = mset (map (call_for ''{}'' ''pub'' ''priv'' ''mailto:a@b'') ?subs)"
    using topic_filtering [OF p1 g1 s1] by blast
  have b: "mset (dispatched (snd (snd (SendNotifications ex_marshal ex_send ex_env False
       ex_picks ex_db ex_req ''pub'' ''priv'' ''mailto:a@b''))))
     = mset (map (call_for ''{}'' ''pub'' ''priv'' ''mailto:a@b'') ex_subs)"
    using topic_filtering [OF ex_payload g2 ex_all_finished] by blast
  have a': "mset (map wp_endpoint (dispatched (snd (snd (SendNotifications ex_marshal ex_send ex_env
       False (sequential_picks (goroutines ex_marshal ex_send ex_env ?subs ?req
           ''pub'' ''priv'' ''mailto:a@b''))
       ex_db ?req ''pub'' ''priv'' ''mailto:a@b'')))))
     = mset [''https://push.example/a'', ''https://push.example/c'']"
    using arg_cong [OF a, of "image_mset wp_endpoint"]
    by (simp add: call_for_def ex_sub_def)
  have b': "mset (map wp_endpoint (dispatched (snd (snd (SendNotifications ex_marshal ex_send ex_env
       False ex_picks ex_db ex_req ''pub'' ''priv'' ''mailto:a@b'')))))
     = mset [''https://push.example/a'', ''https://push.example/b'', ''https://push.example/c'',
        ''https://push.example/d'']"
    using arg_cong [OF b, of "image_mset wp_endpoint"]
    by (simp add: call_for_def ex_subs_def ex_sub_def)
  show ?thesis using p1 g1 a' ex_payload g2 b' by blast
qed

text \<open>
  Claim C9.  The payload is built once, by \<open>pushPayload\<close>, and in every run to the end
  every call of the push primitive in the batch carries that same blob.  The blob is the
  serialisation of an envelope whose \<open>notification\<close> object holds \<open>title\<close> always, each of
  \<open>body\<close>, \<open>icon\<close>, \<open>badge\<close>, \<open>tag\<close> exactly when the request field is not empty, and,
  exactly when \<open>url\<close> is not empty, an object \<open>data\<close> holding the url under \<open>url\<close>; it
  holds no other key.
\<close>

theorem payload_shared_envelope:
  assumes "pushPayload marshal req = Inr pl"
      and "all_finished (goroutines marshal send env subs req pub priv contact) picks"
  shows "marshal (envelope_of req) = Inr pl \<and>
         (\<forall>c \<in> set (dispatched (snd (snd
                (sendToSubscriptions marshal send env picks d subs req pub priv contact)))).
            payload c = pl) \<and>
         length (dispatched (snd (snd
                (sendToSubscriptions marshal send env picks d subs req pub priv contact)))) = length subs \<and>
         envelope_of req =
           JObject [''web_push'' \<mapsto> JNumber 8030, ''notification'' \<mapsto> JObject (notification_of req)] \<and>
         notification_of req ''title'' = Some (JString (Title req)) \<and>
         notification_of req ''body'' = (if Body req \<noteq> [] then Some (JString (Body req)) else None) \<and>
         notification_of req ''icon'' = (if Icon req \<noteq> [] then Some (JString (Icon req)) else None) \<and>
         notification_of req ''badge'' = (if Badge req \<noteq> [] then Some (JString (Badge req)) else None) \<and>
         notification_of req ''tag'' = (if Tag req \<noteq> [] then Some (JString (Tag req)) else None) \<and>
         notification_of req ''data'' =
           (if URL req \<noteq> [] then Some (JObject [''url'' \<mapsto> JString (URL req)]) else None) \<and>
         dom (notification_of req) \<subseteq> {''title'', ''body'', ''icon'', ''badge'', ''tag'', ''data''}"
proof -
  let ?disp = "dispatched (snd (snd
                (sendToSubscriptions marshal send env picks d subs req pub priv contact)))"
  have a: "marshal (envelope_of req) = Inr pl"
    using assms(1) by (simp add: pushPayload_def)
  have "snd (snd (sendToSubscriptions marshal send env picks d subs req pub priv contact))
          = concat (map step_events (batch_steps send env pl pub priv contact subs picks))"
    using run_of_picks [OF assms(1), of send env picks d subs pub priv contact] by simp
  then have "?disp = concat (map step_calls (batch_steps send env pl pub priv contact subs picks))"
    by (simp only: dispatched_events)
  then have m: "mset ?disp = mset (map (call_for pl pub priv contact) subs)"
    using batch_calls [OF assms] by simp
  have "set ?disp = set (map (call_for pl pub priv contact) subs)"
    using m by (rule mset_eq_setD)
  then have b: "\<forall>c \<in> set ?disp. payload c = pl"
    by (auto simp: call_for_def)
  have l: "length ?disp = length subs"
    using mset_eq_length [OF m] by simp
  have e: "envelope_of req =
           JObject [''web_push'' \<mapsto> JNumber 8030, ''notification'' \<mapsto> JObject (notification_of req)]"
    by (simp add: envelope_of_def)
  have f: "notification_of req ''title'' = Some (JString (Title req))"
    "notification_of req ''body'' = (if Body req \<noteq> [] then Some (JString (Body req)) else None)"
    "notification_of req ''icon'' = (if Icon req \<noteq> [] then Some (JString (Icon req)) else None)"
    "notification_of req ''badge'' = (if Badge req \<noteq> [] then Some (JString (Badge req)) else None)"
    "notification_of req ''tag'' = (if Tag req \<noteq> [] then Some (JString (Tag req)) else None)"
    "notification_of req ''data'' =
       (if URL req \<noteq> [] then Some (JObject [''url'' \<mapsto> JString (URL req)]) else None)"
    by (simp_all add: notification_of_def Let_def)
  have dm: "dom (notification_of req) \<subseteq> {''title'', ''body'', ''icon'', ''badge'', ''tag'', ''data''}"
    by (auto simp: notification_of_def Let_def dom_def split: if_splits)
  show ?thesis
    using a b l e f dm by blast
qed

theorem payload_shared_envelope_witness:
  "pushPayload ex_marshal ex_req = Inr ''{}'' \<and>
   all_finished (goroutines ex_marshal ex_send ex_env ex_subs ex_req ''pub'' ''priv'' ''mailto:a@b'')
     ex_picks \<and>
   map payload (dispatched (snd (snd
      (sendToSubscriptions ex_marshal ex_send ex_env ex_picks ex_db ex_subs ex_req
         ''pub'' ''priv'' ''mailto:a@b'')))) = [''{}'', ''{}'', ''{}'', ''{}''] \<and>
   notification_of ex_req ''title'' = Some (JString ''Hello'') \<and>
   notification_of ex_req ''body'' = Some (JString ''World'') \<and>
   notification_of ex_req ''icon'' = None \<and>
   notification_of ex_req ''badge'' = None \<and>
   notification_of ex_req ''tag'' = None \<and>
   notification_of ex_req ''data'' = Some (JObject [''url'' \<mapsto> JString ''https://example.org/x''])"
proof -
  note t = payload_shared_envelope [OF ex_payload ex_all_finished, of ex_db]
  have all: "\<forall>c \<in> set (dispatched (snd (snd
      (sendToSubscriptions ex_marshal ex_send ex_env ex_picks ex_db ex_subs ex_req
         ''pub'' ''priv'' ''mailto:a@b'')))). payload c = ''{}''"
    using t by blast
  have len: "length (dispatched (snd (snd
      (sendToSubscriptions ex_marshal ex_send ex_env ex_picks ex_db ex_subs ex_req
         ''pub'' ''priv'' ''mailto:a@b'')))) = 4"
    using t by (simp add: ex_subs_def)
  have m: "map payload (dispatched (snd (snd
      (sendToSubscriptions ex_marshal ex_send ex_env ex_picks ex_db ex_subs ex_req
         ''pub'' ''priv'' ''mailto:a@b'')))) = [''{}'', ''{}'', ''{}'', ''{}'']"
    using all len by (auto simp: length_Suc_conv numeral_eq_Suc)
  have f: "notification_of ex_req ''title'' = Some (JString ''Hello'') \<and>
   notification_of ex_req ''body'' = Some (JString ''World'') \<and>
   notification_of ex_req ''icon'' = None \<and>
   notification_of ex_req ''badge'' = None \<and>
   notification_of ex_req ''tag'' = None \<and>
   notification_of ex_req ''data'' = Some (JObject [''url'' \<mapsto> JString ''https://example.org/x''])"
    using t by (simp add: ex_req_def)
  show ?thesis using ex_payload ex_all_finished m f by blast
qed

text \<open>
  Claim C4, as stated: a failed read of the subscriptions at the start of a notification is
  surfaced to the caller, who can tell it from a fan-out over no subscriber.  It fails:
  with a failing read over a store of four subscriptions \<open>SendNotifications\<close> returns the
  very result it returns for a successful read of an empty store.
\<close>

theorem read_error_not_surfaced_counterexample:
  "GetSubscriptionsByTopic ex_db True (ReqTopic ex_req) = Inl (StorageError ''query subscriptions'') \<and>
   GetSubscriptionsByTopic empty_db False (ReqTopic ex_req) = Inr [] \<and>
   fst (snd (SendNotifications ex_marshal ex_send ex_env True ex_picks ex_db ex_req
               ''pub'' ''priv'' ''mailto:a@b''))
   = fst (snd (SendNotifications ex_marshal ex_send ex_env False [] empty_db ex_req
               ''pub'' ''priv'' ''mailto:a@b''))"
  by (simp add: SendNotifications_def GetSubscriptionsByTopic_def empty_db_def ex_req_def
        sendToSubscriptions_def pushPayload_def ex_marshal_def aggregate_def)

text \<open>
  Claim C4, amended.  When the read of the subscriptions fails, \<open>SendNotifications\<close> (which
  only prints the error) returns the zero aggregate, the result of a fan-out over no
  subscriber; nothing is dispatched, nothing is logged and the store is unchanged.
\<close>

theorem read_error_gives_zero_result:
  "SendNotifications marshal send env True picks d req pub priv contact
     = (d, \<lparr>Sent = 0, Failed = 0, StaleRemoved = 0\<rparr>, []) \<and>
   fst (snd (SendNotifications marshal send env True picks d req pub priv contact))
     = fst (snd (sendToSubscriptions marshal send env [] d [] req pub priv contact))"
  by (simp add: SendNotifications_def GetSubscriptionsByTopic_def NotifyResult0_def
        sendToSubscriptions_def aggregate_def split: sum.splits)

section \<open>Subscription store: upsert\<close>

lemma update_filter_commute:
  "filter (\<lambda>t. Endpoint t = endpoint)
     (map (\<lambda>t. if Endpoint t = endpoint
               then t\<lparr>Topic := topic, KeyP256dh := p256dh, KeyAuth := auth\<rparr> else t) xs)
   = map (\<lambda>t. if Endpoint t = endpoint
               then t\<lparr>Topic := topic, KeyP256dh := p256dh, KeyAuth := auth\<rparr> else t)
       (filter (\<lambda>t. Endpoint t = endpoint) xs)"
  by (induction xs) auto

lemma update_keeps_endpoints:
  "map Endpoint (map (\<lambda>t. if Endpoint t = endpoint
               then t\<lparr>Topic := topic, KeyP256dh := p256dh, KeyAuth := auth\<rparr> else t) xs)
   = map Endpoint xs"
  by (induction xs) auto

lemma update_keeps_ids:
  "map ID (map (\<lambda>t. if Endpoint t = endpoint
               then t\<lparr>Topic := topic, KeyP256dh := p256dh, KeyAuth := auth\<rparr> else t) xs)
   = map ID xs"
  by (induction xs) auto

lemma upsert_new:
  assumes "endpoint \<notin> Endpoint ` set (subscriptions d)" "newID \<notin> ID ` set (subscriptions d)"
  shows "UpsertSubscription d now newID False False topic endpoint p256dh auth =
     (d\<lparr>subscriptions := subscriptions d @
           [\<lparr>ID = newID, Topic = topic, Endpoint = endpoint, KeyP256dh = p256dh,
             KeyAuth = auth, CreatedAt = now\<rparr>]\<rparr>, Inr (newID, True))"
proof -
  have a: "\<not> list_ex (\<lambda>s. Endpoint s = endpoint) (subscriptions d)"
    using assms(1) by (force simp: list_ex_iff image_iff)
  have b: "\<not> list_ex (\<lambda>s. ID s = newID) (subscriptions d)"
    using assms(2) by (force simp: list_ex_iff image_iff)
  have c: "filter (\<lambda>s. Endpoint s = endpoint) (subscriptions d) = []"
    using assms(1) by (force simp: filter_empty_conv image_iff)
  show ?thesis
    by (simp add: UpsertSubscription_def upsert_statement_def a b c select_id_by_endpoint_def)
qed

lemma upsert_existing:
  assumes "distinct (map Endpoint (subscriptions d))" "s \<in> set (subscriptions d)"
      "Endpoint s = endpoint" "newID \<notin> ID ` set (subscriptions d)"
  shows "UpsertSubscription d now newID False False topic endpoint p256dh auth =
     (d\<lparr>subscriptions :=
           map (\<lambda>t. if Endpoint t = endpoint
                     then t\<lparr>Topic := topic, KeyP256dh := p256dh, KeyAuth := auth\<rparr> else t)
             (subscriptions d)\<rparr>, Inr (ID s, False))"
proof -
  let ?u = "\<lambda>t. if Endpoint t = endpoint
                     then t\<lparr>Topic := topic, KeyP256dh := p256dh, KeyAuth := auth\<rparr> else t"
  have a: "list_ex (\<lambda>s. Endpoint s = endpoint) (subscriptions d)"
    using assms(2,3) by (auto simp: list_ex_iff)
  have f: "filter (\<lambda>t. Endpoint t = endpoint) (subscriptions d) = [s]"
    using filter_unique_key [OF assms(1,2)] assms(3) by simp
  have "filter (\<lambda>t. Endpoint t = endpoint) (map ?u (subscriptions d))
        = map ?u (filter (\<lambda>t. Endpoint t = endpoint) (subscriptions d))"
    by (rule update_filter_commute)
  then have g: "filter (\<lambda>t. Endpoint t = endpoint) (map ?u (subscriptions d)) = [?u s]"
    using f by simp
  have ne: "ID s \<noteq> newID" using assms(2,4) by auto
  show ?thesis
    using ne assms(3)
    by (simp add: UpsertSubscription_def upsert_statement_def a select_id_by_endpoint_def g)
qed

text \<open>
  Claim C2.  On a store with one row for each endpoint, with an id from \<open>randomID\<close> that no
  row holds yet and no storage fault: when no row exists for the endpoint,
  \<open>UpsertSubscription\<close> appends a row with the new id and returns that id with
  \<open>created = true\<close>; when a row exists for the endpoint, its topic and keys are replaced in
  place, its id (and every other id) is kept, and the call returns the row's id with
  \<open>created = false\<close>.  In both cases the store still has one row for each endpoint.
\<close>

theorem upsert_semantics:
  assumes "distinct (map Endpoint (subscriptions d))"
      and "newID \<notin> ID ` set (subscriptions d)"
  shows "let (d', r) = UpsertSubscription d now newID False False topic endpoint p256dh auth
         in (endpoint \<notin> Endpoint ` set (subscriptions d) \<longrightarrow>
               r = Inr (newID, True) \<and>
               subscriptions d' = subscriptions d @
                 [\<lparr>ID = newID, Topic = topic, Endpoint = endpoint, KeyP256dh = p256dh,
                   KeyAuth = auth, CreatedAt = now\<rparr>]) \<and>
            (\<forall>s \<in> set (subscriptions d). Endpoint s = endpoint \<longrightarrow>
               r = Inr (ID s, False) \<and>
               subscriptions d' =
                 map (\<lambda>t. if Endpoint t = endpoint
                           then t\<lparr>Topic := topic, KeyP256dh := p256dh, KeyAuth := auth\<rparr> else t)
                   (subscriptions d) \<and>
               s\<lparr>Topic := topic, KeyP256dh := p256dh, KeyAuth := auth\<rparr> \<in> set (subscriptions d') \<and>
               map ID (subscriptions d') = map ID (subscriptions d)) \<and>
            distinct (map Endpoint (subscriptions d')) \<and>
            delivery_log d' = delivery_log d"
proof (cases "endpoint \<in> Endpoint ` set (subscriptions d)")
  case False
  note new = upsert_new [OF False assms(2), of now topic p256dh auth]
  have "distinct (map Endpoint (subscriptions d @
                 [\<lparr>ID = newID, Topic = topic, Endpoint = endpoint, KeyP256dh = p256dh,
                   KeyAuth = auth, CreatedAt = now\<rparr>]))"
    using assms(1) False by simp
  then show ?thesis using False unfolding new by auto
next
  case True
  let ?u = "\<lambda>t. if Endpoint t = endpoint
                     then t\<lparr>Topic := topic, KeyP256dh := p256dh, KeyAuth := auth\<rparr> else t"
  from True obtain s where s: "s \<in> set (subscriptions d)" "Endpoint s = endpoint" by auto
  note ex = upsert_existing [OF assms(1) s assms(2), of now topic p256dh auth]
  have uniq: "\<And>t. t \<in> set (subscriptions d) \<Longrightarrow> Endpoint t = endpoint \<Longrightarrow> t = s"
    using assms(1) s by (metis distinct_map inj_onD)
  have e: "map Endpoint (map ?u (subscriptions d)) = map Endpoint (subscriptions d)"
    by (rule update_keeps_endpoints)
  have i: "map ID (map ?u (subscriptions d)) = map ID (subscriptions d)"
    by (rule update_keeps_ids)
  have m: "s\<lparr>Topic := topic, KeyP256dh := p256dh, KeyAuth := auth\<rparr> \<in> set (map ?u (subscriptions d))"
    using s by (force simp: image_iff)
  show ?thesis
    unfolding ex using True assms(1) e i m uniq by (auto simp del: map_map)
qed

theorem upsert_semantics_witness:
  "distinct (map Endpoint (subscriptions ex_db)) \<and>
   ''05'' \<notin> ID ` set (subscriptions ex_db) \<and>
   snd (UpsertSubscription ex_db 2000 ''05'' False False ''news'' ''https://push.example/b''
          ''p2'' ''a2'') = Inr (''02'', False) \<and>
   map Topic (subscriptions (fst (UpsertSubscription ex_db 2000 ''05'' False False ''news''
          ''https://push.example/b'' ''p2'' ''a2''))) = [''alerts'', ''news'', ''alerts'', ''other''] \<and>
   snd (UpsertSubscription ex_db 2000 ''05'' False False ''news'' ''https://push.example/e''
          ''p2'' ''a2'') = Inr (''05'', True) \<and>
   map ID (subscriptions (fst (UpsertSubscription ex_db 2000 ''05'' False False ''news''
          ''https://push.example/e'' ''p2'' ''a2''))) = [''01'', ''02'', ''03'', ''04'', ''05'']"
proof -
  have h1: "distinct (map Endpoint (subscriptions ex_db))"
    by (simp add: ex_db_def ex_subs_def ex_sub_def)
  have h2: "''05'' \<notin> ID ` set (subscriptions ex_db)"
    by (simp add: ex_db_def ex_subs_def ex_sub_def)
  have m: "ex_sub ''02'' [] ''https://push.example/b'' \<in> set (subscriptions ex_db)"
    by (simp add: ex_db_def ex_subs_def)
  have n: "''https://push.example/e'' \<notin> Endpoint ` set (subscriptions ex_db)"
    by (simp add: ex_db_def ex_subs_def ex_sub_def)
  obtain d1 r1 where u1: "UpsertSubscription ex_db 2000 ''05'' False False ''news''
          ''https://push.example/b'' ''p2'' ''a2'' = (d1, r1)"
    by (cases "UpsertSubscription ex_db 2000 ''05'' False False ''news''
          ''https://push.example/b'' ''p2'' ''a2''") auto
  obtain d2 r2 where u2: "UpsertSubscription ex_db 2000 ''05'' False False ''news''
          ''https://push.example/e'' ''p2'' ''a2'' = (d2, r2)"
    by (cases "UpsertSubscription ex_db 2000 ''05'' False False ''news''
          ''https://push.example/e'' ''p2'' ''a2''") auto
  note t1 = upsert_semantics [OF h1 h2, of 2000 "''news''" "''https://push.example/b''" "''p2''" "''a2''",
               unfolded u1 Let_def prod.case]
  note t2 = upsert_semantics [OF h1 h2, of 2000 "''news''" "''https://push.example/e''" "''p2''" "''a2''",
               unfolded u2 Let_def prod.case]
  have a: "r1 = Inr (ID (ex_sub ''02'' [] ''https://push.example/b''), False) \<and>
           subscriptions d1 =
                 map (\<lambda>t. if Endpoint t = ''https://push.example/b''
                           then t\<lparr>Topic := ''news'', KeyP256dh := ''p2'', KeyAuth := ''a2''\<rparr> else t)
                   (subscriptions ex_db)"
    using t1 m by (simp add: ex_sub_def)
  have b: "r2 = Inr (''05'', True) \<and>
           subscriptions d2 = subscriptions ex_db @
                 [\<lparr>ID = ''05'', Topic = ''news'', Endpoint = ''https://push.example/e'',
                   KeyP256dh = ''p2'', KeyAuth = ''a2'', CreatedAt = 2000\<rparr>]"
    using t2 n by blast
  show ?thesis
    unfolding u1 u2 using h1 h2 a b
    by (simp add: ex_db_def ex_subs_def ex_sub_def)
qed

section \<open>Delivery log retention\<close>

lemma wrap64_id: "- (2 ^ 63) \<le> x \<Longrightarrow> x < 2 ^ 63 \<Longrightarrow> wrap64 x = x"
  by (simp add: wrap64_def)

text \<open>
  Claim C6, as stated: \<open>PurgeDeliveryLog\<close> deletes exactly the entries whose \<open>sent_at\<close> is
  strictly before \<open>now - olderThan\<close>.  It fails within the last second before the cutoff:
  with the clock a quarter of a second past a whole second, an entry sent exactly 30 days
  before that whole second is strictly before \<open>now - 30 days\<close>, and it is kept.
\<close>

theorem purge_boundary_counterexample:
  "sent_at (ex_log_entry 1 ''01'' (30 * 86400)) * Second < ex_now - 30 * 24 * Hour \<and>
   ex_log_entry 1 ''01'' (30 * 86400) \<in> set (delivery_log ex_boundary_db) \<and>
   PurgeDeliveryLog ex_boundary_db ex_now False (30 * 24 * Hour) = (ex_boundary_db, Inr 0)"
  by (simp add: PurgeDeliveryLog_def ex_boundary_db_def ex_log_entry_def ex_now_def wrap64_def
        Hour_def Minute_def Second_def Nanosecond_def)

text \<open>
  Claim C6, amended.  For every duration \<open>olderThan\<close> (other than the least \<open>int64\<close>) and
  every delivery log, a successful \<open>PurgeDeliveryLog\<close> deletes exactly the entries whose
  \<open>sent_at\<close> is strictly before \<open>now - olderThan\<close> truncated to whole seconds, keeps all
  other entries unchanged and in order, and returns the number of entries deleted; with
  entries aged 10, 29 and 31 days, purging with \<open>30d\<close> deletes the 31-day entry only and
  returns 1.
\<close>

theorem purge_deletes_before_cutoff_second:
  assumes "- (2 ^ 63) < olderThan" and "olderThan < 2 ^ 63"
  shows "PurgeDeliveryLog d now False olderThan =
           (d\<lparr>delivery_log :=
                filter (\<lambda>e. \<not> sent_at e < (now - olderThan) div Second) (delivery_log d)\<rparr>,
            Inr (int (length (filter (\<lambda>e. sent_at e < (now - olderThan) div Second)
                                (delivery_log d))))) \<and>
         (\<forall>e \<in> set (delivery_log d).
            sent_at e < (now - olderThan) div Second \<longleftrightarrow>
            sent_at e * Second < now - olderThan - (now - olderThan) mod Second)"
proof -
  have w: "wrap64 (- olderThan) = - olderThan"
    using assms by (intro wrap64_id) simp_all
  have a: "PurgeDeliveryLog d now False olderThan =
           (d\<lparr>delivery_log :=
                filter (\<lambda>e. \<not> sent_at e < (now - olderThan) div Second) (delivery_log d)\<rparr>,
            Inr (int (length (filter (\<lambda>e. sent_at e < (now - olderThan) div Second)
                                (delivery_log d)))))"
    by (simp add: PurgeDeliveryLog_def w Let_def)
  have b: "\<And>a x :: int. a < x div Second \<longleftrightarrow> a * Second < x - x mod Second"
  proof -
    fix a x :: int
    have s: "(0::int) < Second" by (simp add: Second_def Nanosecond_def)
    have "x - x mod Second = (x div Second) * Second"
      by (simp add: minus_mod_eq_div_mult)
    then show "a < x div Second \<longleftrightarrow> a * Second < x - x mod Second"
      using s by simp
  qed
  show ?thesis using a b by blast
qed

theorem purge_deletes_before_cutoff_second_witness:
  "- (2 ^ 63) < 30 * 24 * Hour \<and> 30 * 24 * Hour < 2 ^ 63 \<and>
   parseDuration ''30d'' = Inr (30 * 24 * Hour) \<and>
   PurgeDeliveryLog ex_log_db ex_now False (30 * 24 * Hour) =
     (ex_log_db\<lparr>delivery_log := [ex_log_entry 2 ''01'' (29 * 86400),
                                  ex_log_entry 3 ''02'' (10 * 86400)]\<rparr>, Inr 1) \<and>
   HandlePurgeDeliveryLog ex_log_db ex_now False ''30d'' =
     (ex_log_db\<lparr>delivery_log := [ex_log_entry 2 ''01'' (29 * 86400),
                                  ex_log_entry 3 ''02'' (10 * 86400)]\<rparr>, 200, Some 1)"
proof -
  have h1: "- (2 ^ 63) < 30 * 24 * Hour"
    by (simp add: Hour_def Minute_def Second_def Nanosecond_def)
  have h2: "30 * 24 * Hour < 2 ^ 63"
    by (simp add: Hour_def Minute_def Second_def Nanosecond_def)
  have p: "parseDuration ''30d'' = Inr (30 * 24 * Hour)"
    by (simp add: parseDuration_def durationRe_FindStringSubmatch_def is_digit_def Atoi_def
      digits_value_def wrap64_def Hour_def Minute_def Second_def Nanosecond_def)
  have c: "(ex_now - 30 * 24 * Hour) div Second = 1700000000 - 30 * 86400"
    by (simp add: ex_now_def Hour_def Minute_def Second_def Nanosecond_def)
  have q: "PurgeDeliveryLog ex_log_db ex_now False (30 * 24 * Hour) =
     (ex_log_db\<lparr>delivery_log := [ex_log_entry 2 ''01'' (29 * 86400),
                                  ex_log_entry 3 ''02'' (10 * 86400)]\<rparr>, Inr 1)"
    using purge_deletes_before_cutoff_second [OF h1 h2, of ex_log_db ex_now]
    unfolding c by (simp add: ex_log_db_def ex_log_entry_def)
  have r: "HandlePurgeDeliveryLog ex_log_db ex_now False ''30d'' =
     (ex_log_db\<lparr>delivery_log := [ex_log_entry 2 ''01'' (29 * 86400),
                                  ex_log_entry 3 ''02'' (10 * 86400)]\<rparr>, 200, Some 1)"
    unfolding HandlePurgeDeliveryLog_def Let_def
    by (simp only: list.distinct if_False p q sum.case prod.case)
  show ?thesis using h1 h2 p q r by blast
qed

lemma foldl_digits_nonneg:
  "0 \<le> a \<Longrightarrow> list_all is_digit ds \<Longrightarrow> 0 \<le> foldl (\<lambda>a c. 10 * a + (of_char c - 48)) (a::int) ds"
proof (induction ds arbitrary: a)
  case Nil
  then show ?case by simp
next
  case (Cons c ds)
  have "48 \<le> (of_char c :: nat)" using Cons.prems(2) by (simp add: is_digit_def)
  then have "(48::int) \<le> int (of_char c)" by simp
  then have "(48::int) \<le> of_char c" by (simp only: of_nat_of_char)
  then have "0 \<le> 10 * a + (of_char c - 48)" using Cons.prems(1) by simp
  then show ?case using Cons.IH Cons.prems(2) by simp
qed

lemma digits_value_nonneg: "list_all is_digit ds \<Longrightarrow> 0 \<le> digits_value ds"
  unfolding digits_value_def by (rule foldl_digits_nonneg) simp_all

lemma durationRe_match:
  "ds \<noteq> [] \<Longrightarrow> list_all is_digit ds \<Longrightarrow> u \<in> set ''dhm'' \<Longrightarrow>
     durationRe_FindStringSubmatch (ds @ [u]) = Some (ds, [u])"
  by (simp add: durationRe_FindStringSubmatch_def)

lemma durationRe_match_iff:
  "durationRe_FindStringSubmatch s \<noteq> None \<longleftrightarrow>
     (\<exists>ds u. s = ds @ [u] \<and> ds \<noteq> [] \<and> list_all is_digit ds \<and> u \<in> set ''dhm'')"
proof
  assume "durationRe_FindStringSubmatch s \<noteq> None"
  then have "s \<noteq> []" "butlast s \<noteq> []" "list_all is_digit (butlast s)" "last s \<in> set ''dhm''"
    by (auto simp: durationRe_FindStringSubmatch_def split: if_splits)
  moreover from \<open>s \<noteq> []\<close> have "s = butlast s @ [last s]" by simp
  ultimately show "\<exists>ds u. s = ds @ [u] \<and> ds \<noteq> [] \<and> list_all is_digit ds \<and> u \<in> set ''dhm''"
    by blast
next
  assume "\<exists>ds u. s = ds @ [u] \<and> ds \<noteq> [] \<and> list_all is_digit ds \<and> u \<in> set ''dhm''"
  then show "durationRe_FindStringSubmatch s \<noteq> None"
    using durationRe_match by auto
qed

lemma parseDuration_accepts_iff:
  "(\<exists>dur. parseDuration s = Inr dur) \<longleftrightarrow>
     (\<exists>ds u. s = ds @ [u] \<and> ds \<noteq> [] \<and> list_all is_digit ds \<and> u \<in> set ''dhm'')"
proof -
  have "(\<exists>dur. parseDuration s = Inr dur) \<longleftrightarrow> durationRe_FindStringSubmatch s \<noteq> None"
    by (auto simp: parseDuration_def Let_def durationRe_FindStringSubmatch_def
          split: option.splits if_splits)
  then show ?thesis by (simp only: durationRe_match_iff)
qed

lemma parseDuration_rejects:
  "\<not> (\<exists>ds u. s = ds @ [u] \<and> ds \<noteq> [] \<and> list_all is_digit ds \<and> u \<in> set ''dhm'') \<Longrightarrow>
     parseDuration s = Inl (InvalidDuration ''invalid duration'')"
proof -
  assume "\<not> (\<exists>ds u. s = ds @ [u] \<and> ds \<noteq> [] \<and> list_all is_digit ds \<and> u \<in> set ''dhm'')"
  then have "durationRe_FindStringSubmatch s = None"
    using durationRe_match_iff [of s] by blast
  then show ?thesis by (simp add: parseDuration_def)
qed

lemma parseDuration_in_range:
  assumes "ds \<noteq> []" "list_all is_digit ds" "digits_value ds * 24 * Hour < 2 ^ 63"
  shows "parseDuration (ds @ ''d'') = Inr (digits_value ds * 24 * Hour)"
    and "parseDuration (ds @ ''h'') = Inr (digits_value ds * Hour)"
    and "parseDuration (ds @ ''m'') = Inr (digits_value ds * Minute)"
proof -
  let ?n = "digits_value ds"
  have n0: "0 \<le> ?n" using assms(2) by (rule digits_value_nonneg)
  have H: "Hour = 3600000000000" "Minute = 60000000000"
    by (simp_all add: Hour_def Minute_def Second_def Nanosecond_def)
  have b: "?n * 24 * 3600000000000 < 2 ^ 63" using assms(3) by (simp add: H)
  have n63: "?n \<le> 2 ^ 63 - 1" using b n0 by simp
  have a: "Atoi ds = (?n, None)" using n63 by (simp add: Atoi_def)
  have w1: "wrap64 (?n * 24) = ?n * 24" using n0 b by (intro wrap64_id) simp_all
  have w2: "wrap64 (?n * 24 * Hour) = ?n * 24 * Hour" using n0 b by (intro wrap64_id) (simp_all add: H)
  have w3: "wrap64 (?n * Hour) = ?n * Hour" using n0 b by (intro wrap64_id) (simp_all add: H)
  have w4: "wrap64 (?n * Minute) = ?n * Minute" using n0 b by (intro wrap64_id) (simp_all add: H)
  show "parseDuration (ds @ ''d'') = Inr (?n * 24 * Hour)"
    using durationRe_match [OF assms(1,2), of "CHR ''d''"] by (simp add: parseDuration_def a w1 w2)
  show "parseDuration (ds @ ''h'') = Inr (?n * Hour)"
    using durationRe_match [OF assms(1,2), of "CHR ''h''"] by (simp add: parseDuration_def a w3)
  show "parseDuration (ds @ ''m'') = Inr (?n * Minute)"
    using durationRe_match [OF assms(1,2), of "CHR ''m''"] by (simp add: parseDuration_def a w4)
qed

lemma handler_rejects_without_deleting:
  "parseDuration s = Inl e \<Longrightarrow> s \<noteq> [] \<Longrightarrow> HandlePurgeDeliveryLog d now fault s = (d, 400, None)"
  by (simp add: HandlePurgeDeliveryLog_def)

text \<open>
  Claim C5.  \<open>parseDuration\<close> accepts exactly the strings made of decimal digits followed by
  one of d, h, m (\<open>parseDuration_accepts_iff\<close>), rejects every other string before any
  deletion (\<open>handler_rejects_without_deleting\<close>), and returns N days, hours or minutes as
  long as the product fits 64 bits (\<open>parseDuration_in_range\<close>).  Beyond that the claim
  fails: \<open>106752d\<close> is accepted and gives a negative duration instead of 106752 days, and the
  purge handler then deletes an entry written at the very second of the purge.
\<close>

theorem parse_duration_wraps:
  "parseDuration ''106752d'' = Inr (- 9223371273709551616) \<and>
   106752 * 24 * Hour = 9223372800000000000 \<and>
   HandlePurgeDeliveryLog ex_fresh_db ex_now False ''106752d''
     = (ex_fresh_db\<lparr>delivery_log := []\<rparr>, 200, Some 1)"
proof -
  have p: "parseDuration ''106752d'' = Inr (- 9223371273709551616)"
    by (simp add: parseDuration_def durationRe_FindStringSubmatch_def is_digit_def Atoi_def
      digits_value_def wrap64_def Hour_def Minute_def Second_def Nanosecond_def)
  have h: "106752 * 24 * Hour = 9223372800000000000"
    by (simp add: Hour_def Minute_def Second_def Nanosecond_def)
  have q: "HandlePurgeDeliveryLog ex_fresh_db ex_now False ''106752d''
     = (ex_fresh_db\<lparr>delivery_log := []\<rparr>, 200, Some 1)"
    by (simp add: HandlePurgeDeliveryLog_def p PurgeDeliveryLog_def ex_fresh_db_def
          ex_log_entry_def ex_now_def wrap64_def Second_def Nanosecond_def)
  show ?thesis using p h q by blast
qed

section \<open>Key manager: encodings and the round trip\<close>

lemma index_of_nth: "distinct xs \<Longrightarrow> i < length xs \<Longrightarrow> index_of (xs ! i) xs = Some i"
proof (induction xs arbitrary: i)
  case Nil
  then show ?case by simp
next
  case (Cons x xs)
  show ?case
  proof (cases i)
    case 0
    then show ?thesis by simp
  next
    case (Suc j)
    then have j: "j < length xs" using Cons.prems(2) by simp
    then have "xs ! j \<in> set xs" by simp
    then have "xs ! j \<noteq> x" using Cons.prems(1) by auto
    then show ?thesis using Suc Cons.IH [of j] Cons.prems(1) j by simp
  qed
qed

lemma distinct_encodeURL: "distinct encodeURL"
  by (simp add: encodeURL_def)

lemma length_encodeURL: "length encodeURL = 64"
  by (simp add: encodeURL_def)

lemma decodeMap_encode: "i < 64 \<Longrightarrow> decodeMap (encodeURL ! i) = Some i"
  unfolding decodeMap_def using index_of_nth [OF distinct_encodeURL, of i] length_encodeURL by simp

lemma encode_not_newline: "i < 64 \<Longrightarrow> encodeURL ! i \<noteq> CHR 0x0A \<and> encodeURL ! i \<noteq> CHR 0x0D"
proof -
  assume "i < 64"
  then have "encodeURL ! i \<in> set encodeURL" by (simp add: length_encodeURL)
  moreover have "CHR 0x0A \<notin> set encodeURL" "CHR 0x0D \<notin> set encodeURL"
    by (simp_all add: encodeURL_def)
  ultimately show ?thesis by metis
qed

lemma sextets_recompose:
  assumes "(v::nat) < 16777216"
  shows "(v div 262144 mod 64) * 262144 + (v div 4096 mod 64) * 4096 + (v div 64 mod 64) * 64
           + v mod 64 = v"
proof -
  have a: "v mod 4096 = 64 * (v div 64 mod 64) + v mod 64"
    using mod_mult2_eq [of v 64 64] by simp
  have b: "v mod 262144 = 4096 * (v div 4096 mod 64) + v mod 4096"
    using mod_mult2_eq [of v 4096 64] by simp
  have c: "v mod 16777216 = 262144 * (v div 262144 mod 64) + v mod 262144"
    using mod_mult2_eq [of v 262144 64] by simp
  have "v mod 16777216 = v" using assms by simp
  then show ?thesis using a b c by linarith
qed

lemma bytes3:
  assumes "(a::nat) < 256" "b < 256" "c < 256"
  shows "(a * 65536 + b * 256 + c) div 65536 mod 256 = a \<and>
         (a * 65536 + b * 256 + c) div 256 mod 256 = b \<and>
         (a * 65536 + b * 256 + c) mod 256 = c"
proof -
  have e: "a * 65536 + b * 256 + c = (a * 256 + b) * 256 + c" by simp
  have m: "(a * 65536 + b * 256 + c) mod 256 = c"
    unfolding e using assms(3) by (simp only: mod_mult_self3 mod_less)
  have d: "(a * 65536 + b * 256 + c) div 256 = a * 256 + b"
    unfolding e using assms(3) by simp
  have m2: "(a * 256 + b) mod 256 = b" using assms(2) by simp
  have d2: "(a * 256 + b) div 256 = a" using assms(2) by simp
  have "(a * 65536 + b * 256 + c) div 65536 = (a * 65536 + b * 256 + c) div 256 div 256"
    using div_mult2_eq [of "a * 65536 + b * 256 + c" 256 256] by simp
  then have d3: "(a * 65536 + b * 256 + c) div 65536 = a" using d d2 by simp
  show ?thesis using m d m2 d3 assms(1) by simp
qed

lemma bytes2:
  assumes "(a::nat) < 256" "b < 256"
  shows "((a * 65536 + b * 256) div 262144 mod 64) * 262144
       + ((a * 65536 + b * 256) div 4096 mod 64) * 4096
       + ((a * 65536 + b * 256) div 64 mod 64) * 64 = a * 65536 + b * 256"
proof -
  have v: "a * 65536 + b * 256 < 16777216" using assms by simp
  have "a * 65536 + b * 256 = 64 * (a * 1024 + b * 4)" by simp
  then have z: "(a * 65536 + b * 256) mod 64 = 0" by (simp only: mod_mult_self1_is_0)
  from sextets_recompose [OF v] show ?thesis unfolding z by (simp only: add_0_right)
qed

lemma bytes1:
  assumes "(a::nat) < 256"
  shows "((a * 65536) div 262144 mod 64) * 262144 + ((a * 65536) div 4096 mod 64) * 4096
         = a * 65536"
proof -
  have v: "a * 65536 < 16777216" using assms by simp
  have "a * 65536 = 64 * (a * 1024)" by simp
  then have z: "(a * 65536) mod 64 = 0" by (simp only: mod_mult_self1_is_0)
  have "a * 65536 = 4096 * (a * 16)" by simp
  then have "(a * 65536) div 64 = 64 * (a * 16)" by simp
  then have y: "(a * 65536) div 64 mod 64 = 0" by (simp only: mod_mult_self1_is_0)
  from sextets_recompose [OF v] show ?thesis
    unfolding z y by (simp only: add_0_right mult_0)
qed

lemma bytes2_out:
  "(a::nat) < 256 \<Longrightarrow> b < 256 \<Longrightarrow>
     (a * 65536 + b * 256) div 65536 mod 256 = a \<and> (a * 65536 + b * 256) div 256 mod 256 = b"
  using bytes3 [of a b 0] by simp

lemma bytes1_out: "(a::nat) < 256 \<Longrightarrow> (a * 65536) div 65536 mod 256 = a"
  using bytes3 [of a 0 0] by simp

lemma decode_encoded:
  "i < 64 \<Longrightarrow> decodeMap (encodeURL ! i) \<noteq> None \<and> the (decodeMap (encodeURL ! i)) = i"
  by (simp add: decodeMap_encode)

lemma encode_roundtrip:
  "list_all is_byte bs \<Longrightarrow>
     filter (\<lambda>c. c \<noteq> CHR 0x0A \<and> c \<noteq> CHR 0x0D) (EncodeToString bs) = EncodeToString bs \<and>
     list_all (\<lambda>c. decodeMap c \<noteq> None) (EncodeToString bs) \<and>
     decode_quanta (map (\<lambda>c. the (decodeMap c)) (EncodeToString bs)) = Some bs"
proof (induction bs rule: EncodeToString.induct)
  case (1 a b c rest)
  have ab: "a < 256" "b < 256" "c < 256"
    using "1.prems" by (simp_all add: is_byte_def)
  have r: "list_all is_byte rest"
    using "1.prems" by simp
  define v where "v = a * 65536 + b * 256 + c"
  define s1 where "s1 = v div 262144 mod 64"
  define s2 where "s2 = v div 4096 mod 64"
  define s3 where "s3 = v div 64 mod 64"
  define s4 where "s4 = v mod 64"
  have lt: "s1 < 64" "s2 < 64" "s3 < 64" "s4 < 64"
    by (simp_all add: s1_def s2_def s3_def s4_def)
  have vlt: "v < 16777216" using ab by (simp add: v_def)
  have rec: "s1 * 262144 + s2 * 4096 + s3 * 64 + s4 = v"
    unfolding s1_def s2_def s3_def s4_def by (rule sextets_recompose [OF vlt])
  have out: "v div 65536 mod 256 = a" "v div 256 mod 256 = b" "v mod 256 = c"
    unfolding v_def using bytes3 [OF ab] by simp_all
  have enc: "EncodeToString (a # b # c # rest) =
               [encodeURL ! s1, encodeURL ! s2, encodeURL ! s3, encodeURL ! s4] @ EncodeToString rest"
    by (simp add: Let_def v_def s1_def s2_def s3_def s4_def)
  have ih: "filter (\<lambda>c. c \<noteq> CHR 0x0A \<and> c \<noteq> CHR 0x0D) (EncodeToString rest) = EncodeToString rest"
       "list_all (\<lambda>c. decodeMap c \<noteq> None) (EncodeToString rest)"
       "decode_quanta (map (\<lambda>c. the (decodeMap c)) (EncodeToString rest)) = Some rest"
    using "1.IH" [OF refl r] by simp_all
  have f: "filter (\<lambda>c. c \<noteq> CHR 0x0A \<and> c \<noteq> CHR 0x0D) (EncodeToString (a # b # c # rest))
           = EncodeToString (a # b # c # rest)"
    unfolding enc using ih(1) encode_not_newline [OF lt(1)] encode_not_newline [OF lt(2)]
      encode_not_newline [OF lt(3)] encode_not_newline [OF lt(4)] by simp
  have l: "list_all (\<lambda>c. decodeMap c \<noteq> None) (EncodeToString (a # b # c # rest))"
    unfolding enc using ih(2) decode_encoded [OF lt(1)] decode_encoded [OF lt(2)]
      decode_encoded [OF lt(3)] decode_encoded [OF lt(4)] by simp
  have m: "map (\<lambda>c. the (decodeMap c)) (EncodeToString (a # b # c # rest))
           = s1 # s2 # s3 # s4 # map (\<lambda>c. the (decodeMap c)) (EncodeToString rest)"
    unfolding enc using decode_encoded [OF lt(1)] decode_encoded [OF lt(2)]
      decode_encoded [OF lt(3)] decode_encoded [OF lt(4)] by simp
  have q: "decode_quanta (s1 # s2 # s3 # s4 # map (\<lambda>c. the (decodeMap c)) (EncodeToString rest))
           = Some (a # b # c # rest)"
    by (simp only: decode_quanta.simps Let_def rec out ih(3)) simp
  show ?case by (simp only: f l m q simp_thms)
next
  case (2 a b)
  have ab: "a < 256" "b < 256" using "2.prems" by (simp_all add: is_byte_def)
  define v where "v = a * 65536 + b * 256"
  define s1 where "s1 = v div 262144 mod 64"
  define s2 where "s2 = v div 4096 mod 64"
  define s3 where "s3 = v div 64 mod 64"
  have lt: "s1 < 64" "s2 < 64" "s3 < 64"
    by (simp_all add: s1_def s2_def s3_def)
  have rec: "s1 * 262144 + s2 * 4096 + s3 * 64 = v"
    unfolding s1_def s2_def s3_def v_def by (rule bytes2 [OF ab])
  have out: "v div 65536 mod 256 = a" "v div 256 mod 256 = b"
    unfolding v_def using bytes2_out [OF ab] by simp_all
  have enc: "EncodeToString [a, b] = [encodeURL ! s1, encodeURL ! s2, encodeURL ! s3]"
    by (simp add: Let_def v_def s1_def s2_def s3_def)
  have f: "filter (\<lambda>c. c \<noteq> CHR 0x0A \<and> c \<noteq> CHR 0x0D) (EncodeToString [a, b]) = EncodeToString [a, b]"
    unfolding enc using encode_not_newline [OF lt(1)] encode_not_newline [OF lt(2)]
      encode_not_newline [OF lt(3)] by simp
  have l: "list_all (\<lambda>c. decodeMap c \<noteq> None) (EncodeToString [a, b])"
    unfolding enc using decode_encoded [OF lt(1)] decode_encoded [OF lt(2)]
      decode_encoded [OF lt(3)] by simp
  have m: "map (\<lambda>c. the (decodeMap c)) (EncodeToString [a, b]) = [s1, s2, s3]"
    unfolding enc using decode_encoded [OF lt(1)] decode_encoded [OF lt(2)]
      decode_encoded [OF lt(3)] by simp
  have q: "decode_quanta [s1, s2, s3] = Some [a, b]"
    by (simp only: decode_quanta.simps Let_def rec out)
  show ?case by (simp only: f l m q simp_thms)
next
  case (3 a)
  have ab: "a < 256" using "3.prems" by (simp_all add: is_byte_def)
  define v where "v = a * 65536"
  define s1 where "s1 = v div 262144 mod 64"
  define s2 where "s2 = v div 4096 mod 64"
  have lt: "s1 < 64" "s2 < 64"
    by (simp_all add: s1_def s2_def)
  have rec: "s1 * 262144 + s2 * 4096 = v"
    unfolding s1_def s2_def v_def by (rule bytes1 [OF ab])
  have out: "v div 65536 mod 256 = a"
    unfolding v_def using bytes1_out [OF ab] by simp
  have enc: "EncodeToString [a] = [encodeURL ! s1, encodeURL ! s2]"
    by (simp add: Let_def v_def s1_def s2_def)
  have f: "filter (\<lambda>c. c \<noteq> CHR 0x0A \<and> c \<noteq> CHR 0x0D) (EncodeToString [a]) = EncodeToString [a]"
    unfolding enc using encode_not_newline [OF lt(1)] encode_not_newline [OF lt(2)] by simp
  have l: "list_all (\<lambda>c. decodeMap c \<noteq> None) (EncodeToString [a])"
    unfolding enc using decode_encoded [OF lt(1)] decode_encoded [OF lt(2)] by simp
  have m: "map (\<lambda>c. the (decodeMap c)) (EncodeToString [a]) = [s1, s2]"
    unfolding enc using decode_encoded [OF lt(1)] decode_encoded [OF lt(2)] by simp
  have q: "decode_quanta [s1, s2] = Some [a]"
    by (simp only: decode_quanta.simps Let_def rec out)
  show ?case by (simp only: f l m q simp_thms)
next
  case 4
  show ?case by simp
qed

lemma DecodeString_EncodeToString:
  "list_all is_byte bs \<Longrightarrow> DecodeString (EncodeToString bs) = Some bs"
  using encode_roundtrip [of bs] by (simp add: DecodeString_def Let_def)

lemma length_be_bytes: "length (be_bytes n v) = n"
  by (induction n arbitrary: v) auto

lemma be_bytes_are_bytes: "list_all is_byte (be_bytes n v)"
  by (induction n arbitrary: v) (auto simp: is_byte_def)

lemma SetBytes_snoc: "SetBytes (bs @ [b]) = SetBytes bs * 256 + b"
  by (simp add: SetBytes_def)

lemma SetBytes_be_bytes: "SetBytes (be_bytes n v) = v mod 256 ^ n"
proof (induction n arbitrary: v)
  case 0
  show ?case by (simp add: SetBytes_def)
next
  case (Suc n)
  have "SetBytes (be_bytes (Suc n) v) = (v div 256) mod 256 ^ n * 256 + v mod 256"
    by (simp add: SetBytes_snoc Suc.IH)
  also have "\<dots> = v mod (256 * 256 ^ n)"
    using mod_mult2_eq [of v 256 "256 ^ n"] by simp
  finally show ?case by simp
qed

lemma SetBytes_FillBytes: "FillBytes v n = Some bs \<Longrightarrow> SetBytes bs = v"
  by (auto simp: FillBytes_def SetBytes_be_bytes split: if_splits)

lemma P256_P_fits: "P256_P < 256 ^ 32"
  by (simp add: P256_P_def)

lemma Marshal_on_curve:
  assumes "IsOnCurve x y"
  shows "Marshal x y = Some (4 # be_bytes 32 x @ be_bytes 32 y)"
proof -
  have "x < 256 ^ 32" "y < 256 ^ 32"
    using assms P256_P_fits by (auto simp: IsOnCurve_def)
  then show ?thesis by (simp add: Marshal_def FillBytes_def)
qed

lemma Unmarshal_Marshal:
  assumes "IsOnCurve x y"
  shows "Unmarshal (4 # be_bytes 32 x @ be_bytes 32 y) = Some (x, y)"
proof -
  have lt: "x < P256_P" "y < P256_P" using assms by (auto simp: IsOnCurve_def)
  have f: "x < 256 ^ 32" "y < 256 ^ 32"
    using lt P256_P_fits by auto
  have len: "length (4 # be_bytes 32 x @ be_bytes 32 y) = 1 + 2 * 32"
    by (simp add: length_be_bytes)
  have tk: "take 32 (drop 1 (4 # be_bytes 32 x @ be_bytes 32 y)) = be_bytes 32 x"
    by (simp add: length_be_bytes)
  have dr: "drop 33 (4 # be_bytes 32 x @ be_bytes 32 y) = be_bytes 32 y"
    using length_be_bytes [of 32 x] by (simp add: drop_Cons')
  have sx: "SetBytes (be_bytes 32 x) = x" using f(1) by (simp only: SetBytes_be_bytes mod_less)
  have sy: "SetBytes (be_bytes 32 y) = y" using f(2) by (simp only: SetBytes_be_bytes mod_less)
  show ?thesis
    unfolding Unmarshal_def len tk dr sx sy Let_def using lt assms by simp
qed

lemma Marshal_bytes: "Marshal x y = Some bs \<Longrightarrow> list_all is_byte bs"
  by (auto simp: Marshal_def FillBytes_def is_byte_def be_bytes_are_bytes
        split: option.splits if_splits)

text \<open>
  Claim C7.  For every key pair that \<open>ecdsa.GenerateKey\<close> hands to \<open>GenerateVAPIDKeys\<close>
  (a point on the curve and a scalar below \<open>2\<^sup>2\<^sup>5\<^sup>6\<close>), \<open>GenerateVAPIDKeys\<close> returns two
  strings on which \<open>ParseVAPIDKeys\<close> succeeds; the key it rebuilds has the same point and
  scalar, and the uncompressed form of its public point, in unpadded URL-safe base64, is
  the public key string that was generated.
\<close>

theorem key_round_trip:
  assumes "IsOnCurve (X priv) (Y priv)" and "D priv < 2 ^ 256"
  shows "\<exists>pub prv k.
           GenerateVAPIDKeys (Inr priv) = Some (Inr (pub, prv)) \<and>
           ParseVAPIDKeys pub prv = Inr k \<and>
           X k = X priv \<and> Y k = Y priv \<and> D k = D priv \<and>
           map_option EncodeToString (Marshal (X k) (Y k)) = Some pub"
proof -
  let ?pb = "4 # be_bytes 32 (X priv) @ be_bytes 32 (Y priv)"
  let ?db = "be_bytes 32 (D priv)"
  let ?k = "\<lparr>X = X priv, Y = Y priv, D = D priv\<rparr>"
  have m: "Marshal (X priv) (Y priv) = Some ?pb"
    using assms(1) by (rule Marshal_on_curve)
  have d256: "D priv < 256 ^ 32" using assms(2) by simp
  have fb: "FillBytes (D priv) 32 = Some ?db"
    using d256 by (simp add: FillBytes_def)
  have g: "GenerateVAPIDKeys (Inr priv) = Some (Inr (EncodeToString ?pb, EncodeToString ?db))"
    by (simp add: GenerateVAPIDKeys_def m fb)
  have b1: "list_all is_byte ?pb" using m by (rule Marshal_bytes)
  have b2: "list_all is_byte ?db" by (rule be_bytes_are_bytes)
  have d1: "DecodeString (EncodeToString ?pb) = Some ?pb"
    using b1 by (rule DecodeString_EncodeToString)
  have d2: "DecodeString (EncodeToString ?db) = Some ?db"
    using b2 by (rule DecodeString_EncodeToString)
  have u: "Unmarshal ?pb = Some (X priv, Y priv)"
    using assms(1) by (rule Unmarshal_Marshal)
  have sd: "SetBytes ?db = D priv"
    using d256 by (simp only: SetBytes_be_bytes mod_less)
  have p: "ParseVAPIDKeys (EncodeToString ?pb) (EncodeToString ?db) = Inr ?k"
    by (simp only: ParseVAPIDKeys_def d1 d2 u sd option.case prod.case)
  have r: "map_option EncodeToString (Marshal (X ?k) (Y ?k)) = Some (EncodeToString ?pb)"
    using m by simp
  have f: "X ?k = X priv \<and> Y ?k = Y priv \<and> D ?k = D priv" by simp
  show ?thesis using g p r f by blast
qed

lemma be_bytes_numeral: "be_bytes (numeral k) v = be_bytes (pred_numeral k) (v div 256) @ [v mod 256]"
  by (metis be_bytes.simps(2) numeral_eq_Suc)

lemma on_curveI:
  assumes "x < P256_P" "y < P256_P" "r < P256_P"
      and "y * y = q1 * P256_P + r"
      and "x * x * x + (P256_P - 3) * x + P256_B = q2 * P256_P + r"
  shows "IsOnCurve x y"
proof -
  have "(y * y) mod P256_P = r" unfolding assms(4) using assms(3) by simp
  moreover have "(x * x * x + (P256_P - 3) * x + P256_B) mod P256_P = r"
    unfolding assms(5) using assms(3) by simp
  ultimately show ?thesis using assms(1,2) by (simp add: IsOnCurve_def)
qed

lemma G_on_curve: "IsOnCurve P256_Gx P256_Gy"
proof (rule on_curveI)
  show "P256_Gx < P256_P" by (simp add: P256_Gx_def P256_P_def)
  show "P256_Gy < P256_P" by (simp add: P256_Gy_def P256_P_def)
  show "38841243268434338802906935583467503580982897597684987572860931569745790234001 < P256_P" by (simp add: P256_P_def)
  show "P256_Gy * P256_Gy = 11276107902616505813297874115423378275166393229135779582683496500509631641880 * P256_P + 38841243268434338802906935583467503580982897597684987572860931569745790234001"
    by (simp add: P256_Gy_def P256_P_def)
  show "P256_Gx * P256_Gx * P256_Gx + (P256_P - 3) * P256_Gx + P256_B = 981570988164258562257936101525215858910690391106138407341175333813841188485261487412605372841583104686333854138388118582640433620635866693747671541792774 * P256_P + 38841243268434338802906935583467503580982897597684987572860931569745790234001"
    by (simp add: P256_Gx_def P256_P_def P256_B_def)
qed

lemma negG_on_curve: "IsOnCurve P256_Gx (P256_P - P256_Gy)"
proof (rule on_curveI)
  show "P256_Gx < P256_P" by (simp add: P256_Gx_def P256_P_def)
  show "P256_P - P256_Gy < P256_P" by (simp add: P256_Gy_def P256_P_def)
  show "38841243268434338802906935583467503580982897597684987572860931569745790234001 < P256_P" by (simp add: P256_P_def)
  show "(P256_P - P256_Gy) * (P256_P - P256_Gy) = 54799695199473162978825065225655187892030323298456063634462731302239900685613 * P256_P + 38841243268434338802906935583467503580982897597684987572860931569745790234001"
    by (simp add: P256_Gy_def P256_P_def)
  show "P256_Gx * P256_Gx * P256_Gx + (P256_P - 3) * P256_Gx + P256_B = 981570988164258562257936101525215858910690391106138407341175333813841188485261487412605372841583104686333854138388118582640433620635866693747671541792774 * P256_P + 38841243268434338802906935583467503580982897597684987572860931569745790234001"
    by (simp add: P256_Gx_def P256_P_def P256_B_def)
qed

lemma bytes_negG:
  "4 # be_bytes 32 P256_Gx @ be_bytes 32 (P256_P - P256_Gy) =
     [4, 107, 23, 209, 242, 225, 44, 66, 71, 248, 188, 230, 229, 99, 164, 64, 242,
      119, 3, 125, 129, 45, 235, 51, 160, 244, 161, 57, 69, 216, 152, 194, 150, 176,
      28, 189, 28, 1, 229, 128, 101, 113, 24, 20, 181, 131, 240, 97, 233, 212, 49,
      204, 169, 148, 206, 161, 49, 52, 73, 191, 151, 200, 64, 174, 10]"
  by (simp add: be_bytes_numeral P256_Gx_def P256_Gy_def P256_P_def)

lemma bytes_G:
  "4 # be_bytes 32 P256_Gx @ be_bytes 32 P256_Gy =
     [4, 107, 23, 209, 242, 225, 44, 66, 71, 248, 188, 230, 229, 99, 164, 64, 242,
      119, 3, 125, 129, 45, 235, 51, 160, 244, 161, 57, 69, 216, 152, 194, 150, 79,
      227, 66, 226, 254, 26, 127, 155, 142, 231, 235, 74, 124, 15, 158, 22, 43, 206,
      51, 87, 107, 49, 94, 206, 203, 182, 64, 104, 55, 191, 81, 245]"
  by (simp add: be_bytes_numeral P256_Gx_def P256_Gy_def)

lemma decode_negG:
  "DecodeString ''BGsX0fLhLEJH-Lzm5WOkQPJ3A32BLeszoPShOUXYmMKWsBy9HAHlgGVxGBS1g_Bh6dQxzKmUzqExNEm_l8hArgo'' =
     Some [4, 107, 23, 209, 242, 225, 44, 66, 71, 248, 188, 230, 229, 99, 164, 64, 242,
      119, 3, 125, 129, 45, 235, 51, 160, 244, 161, 57, 69, 216, 152, 194, 150, 176,
      28, 189, 28, 1, 229, 128, 101, 113, 24, 20, 181, 131, 240, 97, 233, 212, 49,
      204, 169, 148, 206, 161, 49, 52, 73, 191, 151, 200, 64, 174, 10]"
  by (simp add: DecodeString_def decodeMap_def encodeURL_def)

lemma decode_G:
  "DecodeString ''BGsX0fLhLEJH-Lzm5WOkQPJ3A32BLeszoPShOUXYmMKWT-NC4v4af5uO5-tKfA-eFivOM1drMV7Oy7ZAaDe_UfU'' =
     Some [4, 107, 23, 209, 242, 225, 44, 66, 71, 248, 188, 230, 229, 99, 164, 64, 242,
      119, 3, 125, 129, 45, 235, 51, 160, 244, 161, 57, 69, 216, 152, 194, 150, 79,
      227, 66, 226, 254, 26, 127, 155, 142, 231, 235, 74, 124, 15, 158, 22, 43, 206,
      51, 87, 107, 49, 94, 206, 203, 182, 64, 104, 55, 191, 81, 245]"
  by (simp add: DecodeString_def decodeMap_def encodeURL_def)

lemma decode_one: "DecodeString ''AQ'' = Some [1]"
  by (simp add: DecodeString_def decodeMap_def encodeURL_def)

lemma decode_long:
  "DecodeString ''AQIDBAUGBwgJCgsMDQ4PEBESExQVFhcYGRobHB0eHyAh'' =
     Some [1, 2, 3, 4, 5, 6, 7, 8, 9, 10, 11, 12, 13, 14, 15, 16, 17, 18, 19, 20, 21, 22,
      23, 24, 25, 26, 27, 28, 29, 30, 31, 32, 33]"
  by (simp add: DecodeString_def decodeMap_def encodeURL_def)

lemma setbytes_long:
  "SetBytes [1, 2, 3, 4, 5, 6, 7, 8, 9, 10, 11, 12, 13, 14, 15, 16, 17, 18, 19, 20, 21, 22,
      23, 24, 25, 26, 27, 28, 29, 30, 31, 32, 33] = 116702043218096950146545914241128346467849315110302499114031406774972623822881"
  by (simp add: SetBytes_def)

lemma encode_G:
  "EncodeToString (4 # be_bytes 32 P256_Gx @ be_bytes 32 P256_Gy) = ex_public"
  unfolding bytes_G by (simp add: ex_public_def encodeURL_def)

lemma encode_one: "EncodeToString (be_bytes 32 1) = ex_private"
  by (simp add: be_bytes_numeral ex_private_def encodeURL_def)

theorem key_round_trip_witness:
  "IsOnCurve (X ex_key) (Y ex_key) \<and> D ex_key < 2 ^ 256 \<and>
   GenerateVAPIDKeys (Inr ex_key) = Some (Inr (ex_public, ex_private)) \<and>
   ParseVAPIDKeys ex_public ex_private = Inr ex_key \<and>
   map_option EncodeToString (Marshal (X ex_key) (Y ex_key)) = Some ex_public"
proof -
  have h1: "IsOnCurve (X ex_key) (Y ex_key)"
    using G_on_curve by (simp add: ex_key_def)
  have h2: "D ex_key < 2 ^ 256" by (simp add: ex_key_def)
  have m: "Marshal P256_Gx P256_Gy = Some (4 # be_bytes 32 P256_Gx @ be_bytes 32 P256_Gy)"
    using G_on_curve by (rule Marshal_on_curve)
  have fb: "FillBytes 1 32 = Some (be_bytes 32 1)" by (simp add: FillBytes_def)
  have g: "GenerateVAPIDKeys (Inr ex_key) = Some (Inr (ex_public, ex_private))"
    by (simp add: GenerateVAPIDKeys_def ex_key_def m fb encode_G encode_one del: One_nat_def)
  from key_round_trip [OF h1 h2] obtain pub prv k where
    t: "GenerateVAPIDKeys (Inr ex_key) = Some (Inr (pub, prv))"
       "ParseVAPIDKeys pub prv = Inr k" "X k = X ex_key" "Y k = Y ex_key" "D k = D ex_key"
       "map_option EncodeToString (Marshal (X k) (Y k)) = Some pub"
    by blast
  have e: "pub = ex_public" "prv = ex_private" using t(1) g by simp_all
  have k: "k = ex_key" using t(3,4,5) by simp
  show ?thesis using h1 h2 g t(2,6) unfolding e k by blast
qed

text \<open>
  Claim C10.  \<open>ParseVAPIDKeys\<close> checks the public component only.  The public point that
  belongs to a scalar \<open>d\<close> is \<open>ScalarBaseMult d\<close>.  With the encoded mirror image of the base
  point as public key and the one-byte private key \<open>AQ\<close> (the scalar 1, whose public point
  is the base point itself) parsing succeeds and returns a key whose scalar does not belong
  to its public point; so it does with the base point and the empty private key (scalar 0),
  and with a private key of 33 bytes, whose scalar exceeds \<open>2\<^sup>2\<^sup>5\<^sup>6\<close>.
\<close>

theorem parse_checks_public_only:
  "ParseVAPIDKeys ex_public_mirror ''AQ'' = Inr \<lparr>X = P256_Gx, Y = P256_P - P256_Gy, D = 1\<rparr> \<and>
   ScalarBaseMult 1 = Affine P256_Gx P256_Gy \<and>
   Affine P256_Gx P256_Gy \<noteq> Affine P256_Gx (P256_P - P256_Gy) \<and>
   ParseVAPIDKeys ex_public [] = Inr \<lparr>X = P256_Gx, Y = P256_Gy, D = 0\<rparr> \<and>
   ScalarBaseMult 0 = Infinity \<and>
   ParseVAPIDKeys ex_public ex_private_long =
     Inr \<lparr>X = P256_Gx, Y = P256_Gy,
          D = 116702043218096950146545914241128346467849315110302499114031406774972623822881\<rparr> \<and>
   (2::nat) ^ 256 < 116702043218096950146545914241128346467849315110302499114031406774972623822881"
proof -
  have u1: "Unmarshal (4 # be_bytes 32 P256_Gx @ be_bytes 32 (P256_P - P256_Gy))
              = Some (P256_Gx, P256_P - P256_Gy)"
    using negG_on_curve by (rule Unmarshal_Marshal)
  have u2: "Unmarshal (4 # be_bytes 32 P256_Gx @ be_bytes 32 P256_Gy) = Some (P256_Gx, P256_Gy)"
    using G_on_curve by (rule Unmarshal_Marshal)
  have a: "ParseVAPIDKeys ex_public_mirror ''AQ''
             = Inr \<lparr>X = P256_Gx, Y = P256_P - P256_Gy, D = 1\<rparr>"
    unfolding ParseVAPIDKeys_def ex_public_mirror_def decode_negG decode_one
    using u1 [unfolded bytes_negG] by (simp add: SetBytes_def)
  have empty: "DecodeString [] = Some []" by (simp add: DecodeString_def)
  have b: "ParseVAPIDKeys ex_public [] = Inr \<lparr>X = P256_Gx, Y = P256_Gy, D = 0\<rparr>"
    unfolding ParseVAPIDKeys_def ex_public_def decode_G empty
    using u2 [unfolded bytes_G] by (simp add: SetBytes_def)
  have c: "ParseVAPIDKeys ex_public ex_private_long =
     Inr \<lparr>X = P256_Gx, Y = P256_Gy,
          D = 116702043218096950146545914241128346467849315110302499114031406774972623822881\<rparr>"
    unfolding ParseVAPIDKeys_def ex_public_def ex_private_long_def decode_G decode_long
    using u2 [unfolded bytes_G] by (simp add: setbytes_long del: One_nat_def)
  have s1: "ScalarBaseMult 1 = Affine P256_Gx P256_Gy"
    by (simp add: ScalarBaseMult_def)
  have s0: "ScalarBaseMult 0 = Infinity"
    by (simp add: ScalarBaseMult_def)
  have ne: "Affine P256_Gx P256_Gy \<noteq> Affine P256_Gx (P256_P - P256_Gy)"
    by (simp add: P256_P_def P256_Gy_def)
  have big: "(2::nat) ^ 256 < 116702043218096950146545914241128346467849315110302499114031406774972623822881"
    by simp
  show ?thesis using a s1 ne b s0 c big by blast
qed

end
